theory Spec2Isabelle
  imports Main "HOL-Library.Word" "HOL-Library.Monad_Syntax"
begin

section \<open>DataStoreBase: the typed buffer arena of searchlib/datastore\<close>

text \<open>
  The embedding follows \<^verbatim>\<open>searchlib/datastore/datastorebase.h\<close>. Sized integers are
  words: \<^verbatim>\<open>uint32_t\<close> is \<open>32 word\<close>, \<^verbatim>\<open>uint64_t\<close>, \<^verbatim>\<open>size_t\<close> and
  \<^verbatim>\<open>generation_t\<close> are \<open>64 word\<close>, so \<open>+\<close> and \<open>-\<close> wrap as in C++.
  A \<^verbatim>\<open>std::vector\<close> is a list; \<^verbatim>\<open>operator[]\<close> outside the vector is undefined
  behaviour in C++ and is the value \<open>None\<close> here, as is every fatal termination of an
  operation whose body is modelled from the spec.
\<close>

type_synonym u32 = "32 word"
type_synonym u64 = "64 word"
type_synonym generation_t = "64 word"

subsection \<open>Data\<close>

text \<open>
  Modelled from the spec: \<^verbatim>\<open>EntryRef\<close> (entryref.h is not part of the sources at hand) is
  the handle \<open>{bufferId, offset}\<close>; the packing into one integer is left out.
\<close>

record EntryRef =
  ref_bufferId :: u32
  ref_offset :: u64

text \<open>\<^verbatim>\<open>ElemHold1ListElem\<close>: hold list before freeze; \<^verbatim>\<open>ElemHold2ListElem\<close> derives from it
  and adds the generation.\<close>

record ElemHold1ListElem =
  ref :: EntryRef
  len :: u64

record ElemHold2ListElem = ElemHold1ListElem +
  generation :: generation_t

text \<open>The constructor \<^verbatim>\<open>ElemHold2ListElem(hold1, generation)\<close>.\<close>

definition mkElemHold2 :: "ElemHold1ListElem \<Rightarrow> generation_t \<Rightarrow> ElemHold2ListElem" where
  "mkElemHold2 hold1 g = \<lparr>ref = ref hold1, len = len hold1, generation = g\<rparr>"

text \<open>\<^verbatim>\<open>FallbackHold\<close>: the fields the class declares; \<open>fb_buffer\<close> is the extent of the
  retired allocation.\<close>

record FallbackHold =
  fb_buffer :: nat
  fb_usedElems :: u64
  fb_typeId :: u32

record MemStats =
  allocElems :: u64
  usedElems :: u64
  deadElems :: u64
  holdElems :: u64
  allocBytes :: u64
  usedBytes :: u64
  deadBytes :: u64
  holdBytes :: u64
  freeBuffers :: u32
  activeBuffers :: u32
  holdBuffers :: u32

text \<open>
  Modelled from the spec: \<^verbatim>\<open>BufferState\<close> (bufferstate.h is not part of the sources at
  hand). Section 3 of the spec gives a buffer its type id, capacity, \<open>usedElems\<close>,
  \<open>deadElems\<close> and a lifecycle state in {Free, Active, Held}; the header reads
  \<^verbatim>\<open>_deadElems\<close>, \<^verbatim>\<open>getTypeId()\<close> and \<^verbatim>\<open>remaining()\<close>; the held-element count
  is the per-buffer figure that \<^verbatim>\<open>MemStats::_holdElems\<close> aggregates.
\<close>

datatype State = FREE | ACTIVE | HOLD

record BufferState =
  bs_usedElems :: u64
  bs_allocElems :: u64
  bs_deadElems :: u64
  bs_holdElems :: u64
  bs_state :: State
  bs_typeId :: u32

text \<open>
  Modelled from the spec: the per-type descriptor \<^verbatim>\<open>BufferTypeBase\<close> (external to the
  header) carries the element size and the minimum and maximum element count of a buffer.
\<close>

record BufferTypeBase =
  elementSize :: u64
  minElems :: u64
  maxElems :: u64

text \<open>
  Modelled from the spec: \<^verbatim>\<open>vespalib::GenerationHolder\<close> (not part of the sources at
  hand) keeps the retired allocations, pending and then stamped with a generation, under
  the same rule as the element hold lists.
\<close>

record GenerationHolder =
  gh_hold1List :: "FallbackHold list"
  gh_hold2List :: "(FallbackHold \<times> generation_t) list"

text \<open>
  The members of \<^verbatim>\<open>DataStoreBase\<close>. \<open>buffers\<close> is \<^verbatim>\<open>std::vector<void *> _buffers\<close>:
  \<open>None\<close> is the null pointer, \<open>Some n\<close> a pointer to backing storage with room for
  \<open>n\<close> entries. The free-list members are left out.
\<close>

record DataStoreBase =
  buffers :: "nat option list"
  activeBufferIds :: "u32 list"
  states :: "BufferState list"
  typeHandlers :: "BufferTypeBase list"
  freeListsEnabled :: bool
  elemHold1List :: "ElemHold1ListElem list"
  elemHold2List :: "ElemHold2ListElem list"
  numBuffers :: u32
  maxClusters :: u64
  genHolder :: GenerationHolder

subsection \<open>MemStats\<close>

text \<open>The default constructor: every counter is 0.\<close>

definition MemStats_init :: MemStats where
  "MemStats_init =
     \<lparr>allocElems = 0, usedElems = 0, deadElems = 0, holdElems = 0,
      allocBytes = 0, usedBytes = 0, deadBytes = 0, holdBytes = 0,
      freeBuffers = 0, activeBuffers = 0, holdBuffers = 0\<rparr>"

text \<open>\<^verbatim>\<open>operator+=\<close>: the value of the left operand after \<^verbatim>\<open>lhs += rhs\<close>.\<close>

definition MemStats_add :: "MemStats \<Rightarrow> MemStats \<Rightarrow> MemStats" where
  "MemStats_add lhs rhs =
     \<lparr>allocElems = allocElems lhs + allocElems rhs,
      usedElems = usedElems lhs + usedElems rhs,
      deadElems = deadElems lhs + deadElems rhs,
      holdElems = holdElems lhs + holdElems rhs,
      allocBytes = allocBytes lhs + allocBytes rhs,
      usedBytes = usedBytes lhs + usedBytes rhs,
      deadBytes = deadBytes lhs + deadBytes rhs,
      holdBytes = holdBytes lhs + holdBytes rhs,
      freeBuffers = freeBuffers lhs + freeBuffers rhs,
      activeBuffers = activeBuffers lhs + activeBuffers rhs,
      holdBuffers = holdBuffers lhs + holdBuffers rhs\<rparr>"

subsection \<open>Operations defined in the header\<close>

text \<open>\<^verbatim>\<open>v[i]\<close> on a \<^verbatim>\<open>std::vector\<close>: no bounds check, undefined outside the vector.\<close>

definition vec_at :: "'a list \<Rightarrow> nat \<Rightarrow> 'a option" where
  "vec_at v i = (if i < length v then Some (v ! i) else None)"

definition nextBufferId :: "DataStoreBase \<Rightarrow> u32 \<Rightarrow> u32" where
  "nextBufferId s bufferId =
     (let ret = bufferId + 1 in if ret = numBuffers s then 0 else ret)"


definition getActiveBufferId :: "DataStoreBase \<Rightarrow> u32 \<Rightarrow> u32 option" where
  "getActiveBufferId s typeId = vec_at (activeBufferIds s) (unat typeId)"

definition getBufferState :: "DataStoreBase \<Rightarrow> u32 \<Rightarrow> BufferState option" where
  "getBufferState s bufferId = vec_at (states s) (unat bufferId)"

definition getNumBuffers :: "DataStoreBase \<Rightarrow> u32" where
  "getNumBuffers s = numBuffers s"

definition getTypeId :: "DataStoreBase \<Rightarrow> u32 \<Rightarrow> u32 option" where
  "getTypeId s bufferId = map_option bs_typeId (vec_at (states s) (unat bufferId))"

definition hasElemHold1 :: "DataStoreBase \<Rightarrow> bool" where
  "hasElemHold1 s = (\<not> List.null (elemHold1List s))"




text \<open>\<^verbatim>\<open>incDead\<close>: \<^verbatim>\<open>_states[bufferId]._deadElems += dead\<close>, nothing else.\<close>

definition incDead :: "DataStoreBase \<Rightarrow> u32 \<Rightarrow> u64 \<Rightarrow> DataStoreBase option" where
  "incDead s bufferId dead =
     do { st \<leftarrow> vec_at (states s) (unat bufferId);
          Some (s\<lparr>states := (states s)[unat bufferId :=
                   st\<lparr>bs_deadElems := bs_deadElems st + dead\<rparr>]\<rparr>) }"

subsection \<open>Operations declared in the header, bodies modelled from the spec\<close>

text \<open>
  Modelled from the spec: \<^verbatim>\<open>BufferState::remaining()\<close> (bufferstate.h is missing), the
  free elements at the end of a buffer: capacity minus used elements, in \<^verbatim>\<open>size_t\<close>.
\<close>

definition remaining :: "BufferState \<Rightarrow> u64" where
  "remaining st = bs_allocElems st - bs_usedElems st"

text \<open>
  Modelled from the spec: the constructor \<^verbatim>\<open>DataStoreBase(numBuffers, maxClusters)\<close>
  (datastorebase.cpp is missing): a pool of \<open>numBuffers\<close> slots, all Free, no type, empty
  hold lists.
\<close>

definition freeBufferState :: BufferState where
  "freeBufferState =
     \<lparr>bs_usedElems = 0, bs_allocElems = 0, bs_deadElems = 0, bs_holdElems = 0,
      bs_state = FREE, bs_typeId = 0\<rparr>"

definition DataStoreBase_init :: "u32 \<Rightarrow> u64 \<Rightarrow> DataStoreBase" where
  "DataStoreBase_init n m =
     \<lparr>buffers = replicate (unat n) None, activeBufferIds = [],
      states = replicate (unat n) freeBufferState, typeHandlers = [],
      freeListsEnabled = False, elemHold1List = [], elemHold2List = [],
      numBuffers = n, maxClusters = m,
      genHolder = \<lparr>gh_hold1List = [], gh_hold2List = []\<rparr>\<rparr>"

text \<open>
  Modelled from the spec: the size of a new allocation (section 4.1,
  \<^verbatim>\<open>switchActiveBuffer\<close>): "sized to satisfy sizeNeeded (growing geometrically up to the
  type's declared maximum element count)"; a request beyond the maximum is the fatal
  capacity exhaustion of section 7. The spec names no ratio; 2 is taken.
\<close>

definition growFactor :: nat where
  "growFactor = 2"

definition calcAlloc :: "BufferTypeBase \<Rightarrow> nat \<Rightarrow> nat \<Rightarrow> nat option" where
  "calcAlloc d prevCap need =
     (if unat (maxElems d) < need then None
      else Some (max need (min (unat (maxElems d))
                               (max (unat (minElems d)) (growFactor * prevCap)))))"

text \<open>
  Modelled from the spec: the base of the geometric growth, the capacity of the buffer
  the type used last (0 when it has none).
\<close>

definition prevCapacity :: "DataStoreBase \<Rightarrow> u32 \<Rightarrow> nat" where
  "prevCapacity s typeId =
     (case vec_at (activeBufferIds s) (unat typeId) of
        None \<Rightarrow> 0
      | Some b \<Rightarrow>
          (case vec_at (states s) (unat b) of
             None \<Rightarrow> 0
           | Some st \<Rightarrow> if bs_typeId st = typeId then unat (bs_allocElems st) else 0))"

text \<open>
  Modelled from the spec: \<^verbatim>\<open>onActive(bufferId, typeId, sizeNeeded, maxSize)\<close> takes a Free
  slot to Active: it allocates the backing storage and resets the counts. Any other
  state of the slot is a back-edge of the lifecycle and fatal. The spec has no word on
  \<^verbatim>\<open>maxSize\<close>, which is left out.
\<close>

definition activated :: "u32 \<Rightarrow> nat \<Rightarrow> BufferState" where
  "activated typeId n =
     \<lparr>bs_usedElems = 0, bs_allocElems = of_nat n, bs_deadElems = 0, bs_holdElems = 0,
      bs_state = ACTIVE, bs_typeId = typeId\<rparr>"

definition onActive :: "DataStoreBase \<Rightarrow> u32 \<Rightarrow> u32 \<Rightarrow> u64 \<Rightarrow> DataStoreBase option" where
  "onActive s bufferId typeId sizeNeeded =
     do { st \<leftarrow> vec_at (states s) (unat bufferId);
          d \<leftarrow> vec_at (typeHandlers s) (unat typeId);
          n \<leftarrow> calcAlloc d (prevCapacity s typeId) (unat sizeNeeded);
          if bs_state st \<noteq> FREE \<or> length (buffers s) \<le> unat bufferId then None
          else Some (s\<lparr>states := (states s)[unat bufferId := activated typeId n],
                        buffers := (buffers s)[unat bufferId := Some n]\<rparr>) }"

text \<open>
  Modelled from the spec: \<^verbatim>\<open>holdBuffer\<close> and \<^verbatim>\<open>doneHoldBuffer\<close>, "explicit entry/exit
  of Held state". Entry is from Active; exit is to Free, gives the storage back and
  clears the counts. On a slot in another state the call is the protocol misuse of
  section 7 (fatal).
\<close>

definition holdBuffer :: "DataStoreBase \<Rightarrow> u32 \<Rightarrow> DataStoreBase option" where
  "holdBuffer s bufferId =
     do { st \<leftarrow> vec_at (states s) (unat bufferId);
          if bs_state st = ACTIVE
          then Some (s\<lparr>states := (states s)[unat bufferId := st\<lparr>bs_state := HOLD\<rparr>]\<rparr>)
          else None }"

definition doneHoldBuffer :: "DataStoreBase \<Rightarrow> u32 \<Rightarrow> DataStoreBase option" where
  "doneHoldBuffer s bufferId =
     do { st \<leftarrow> vec_at (states s) (unat bufferId);
          if bs_state st = HOLD \<and> unat bufferId < length (buffers s)
          then Some (s\<lparr>states := (states s)[unat bufferId :=
                          st\<lparr>bs_usedElems := 0, bs_allocElems := 0, bs_deadElems := 0,
                             bs_holdElems := 0, bs_state := FREE\<rparr>],
                        buffers := (buffers s)[unat bufferId := None]\<rparr>)
          else None }"

text \<open>
  Modelled from the spec: \<^verbatim>\<open>fallbackResize(bufferId, newSize)\<close>, the in-place growth:
  "reallocate larger storage in place and retire the old storage into a FallbackHold".
\<close>

definition fallbackResize :: "DataStoreBase \<Rightarrow> u32 \<Rightarrow> u64 \<Rightarrow> DataStoreBase option" where
  "fallbackResize s bufferId newSize =
     do { st \<leftarrow> vec_at (states s) (unat bufferId);
          old \<leftarrow> vec_at (buffers s) (unat bufferId);
          oldExtent \<leftarrow> old;
          if bs_state st \<noteq> ACTIVE \<or> newSize < bs_allocElems st then None
          else Some (s\<lparr>states := (states s)[unat bufferId := st\<lparr>bs_allocElems := newSize\<rparr>],
                        buffers := (buffers s)[unat bufferId := Some (unat newSize)],
                        genHolder := (genHolder s)\<lparr>gh_hold1List :=
                          gh_hold1List (genHolder s) @
                            [\<lparr>fb_buffer = oldExtent, fb_usedElems = bs_usedElems st,
                              fb_typeId = bs_typeId st\<rparr>]\<rparr>\<rparr>) }"

text \<open>
  Modelled from the spec: the round-robin scan of \<^verbatim>\<open>switchActiveBuffer\<close> for a Free slot.
  At most \<open>n\<close> slots are looked at, from \<open>b\<close> on, each next one given by
  \<open>nextBufferId\<close>; a slot that is not Free is passed.
\<close>

definition isFree :: "DataStoreBase \<Rightarrow> u32 \<Rightarrow> bool" where
  "isFree s b =
     (case vec_at (states s) (unat b) of None \<Rightarrow> False | Some st \<Rightarrow> bs_state st = FREE)"

fun findFree :: "DataStoreBase \<Rightarrow> nat \<Rightarrow> u32 \<Rightarrow> u32 option" where
  "findFree s 0 b = None"
| "findFree s (Suc n) b =
     (if isFree s b then Some b else findFree s n (nextBufferId s b))"

text \<open>
  Modelled from the spec: \<^verbatim>\<open>switchActiveBuffer(typeId, sizeNeeded)\<close> (section 4.1).
  The scan goes round the pool once, beginning at the successor of the id the type used
  last, and takes the first Free slot; that slot becomes Active and the previous active
  buffer of the type, if it has one, becomes Held. With no Free slot the current buffer
  grows in place where that is legal: it is the Active buffer of the type and the grown
  size stays within the maximum of the type. Anything else is fatal.
\<close>

definition switchActiveBuffer :: "DataStoreBase \<Rightarrow> u32 \<Rightarrow> u64 \<Rightarrow> DataStoreBase option" where
  "switchActiveBuffer s typeId sizeNeeded =
     do { cur \<leftarrow> vec_at (activeBufferIds s) (unat typeId);
          curSt \<leftarrow> vec_at (states s) (unat cur);
          case findFree s (unat (numBuffers s)) (nextBufferId s cur) of
            Some b \<Rightarrow>
              do { s1 \<leftarrow> onActive s b typeId sizeNeeded;
                   s2 \<leftarrow> (if bs_state curSt = ACTIVE \<and> bs_typeId curSt = typeId
                          then holdBuffer s1 cur else Some s1);
                   Some (s2\<lparr>activeBufferIds := (activeBufferIds s2)[unat typeId := b]\<rparr>) }
          | None \<Rightarrow>
              do { d \<leftarrow> vec_at (typeHandlers s) (unat typeId);
                   if bs_state curSt = ACTIVE \<and> bs_typeId curSt = typeId
                   then do { n \<leftarrow> calcAlloc d (unat (bs_allocElems curSt))
                                   (unat (bs_usedElems curSt) + unat sizeNeeded);
                             fallbackResize s cur (of_nat n) }
                   else None } }"

text \<open>
  \<^verbatim>\<open>ensureBufferCapacity\<close>, as the header defines it: one comparison against the
  remaining capacity of the active buffer, and \<^verbatim>\<open>switchActiveBuffer\<close> when it is too
  small.
\<close>

definition ensureBufferCapacity :: "DataStoreBase \<Rightarrow> u32 \<Rightarrow> u64 \<Rightarrow> DataStoreBase option" where
  "ensureBufferCapacity s typeId sizeNeeded =
     do { b \<leftarrow> vec_at (activeBufferIds s) (unat typeId);
          st \<leftarrow> vec_at (states s) (unat b);
          if remaining st < sizeNeeded then switchActiveBuffer s typeId sizeNeeded
          else Some s }"

text \<open>
  Modelled from the spec: \<^verbatim>\<open>addType\<close> registers the descriptor under the next type id
  and, by the lifecycle of section 3 ("Free, (addType/onActive), Active"), activates a
  first buffer for it, the Free slot with the lowest id; it is fatal when the pool has
  no Free slot left.
\<close>

definition addType :: "DataStoreBase \<Rightarrow> BufferTypeBase \<Rightarrow> DataStoreBase option" where
  "addType s typeHandler =
     (if 2 ^ 32 \<le> Suc (length (typeHandlers s)) then None
      else case findFree s (unat (numBuffers s)) 0 of
        None \<Rightarrow> None
      | Some b \<Rightarrow>
          do { s1 \<leftarrow> onActive (s\<lparr>typeHandlers := typeHandlers s @ [typeHandler]\<rparr>) b
                       (of_nat (length (typeHandlers s))) 0;
               Some (s1\<lparr>activeBufferIds := activeBufferIds s1 @ [b]\<rparr>) })"

text \<open>
  Modelled from the spec: \<^verbatim>\<open>finishCompact(toHold)\<close> "moves the given buffers to Held
  state". The targets are buffers that were Active or Held when the compaction started;
  one that is Held already stays so.
\<close>

fun finishCompact :: "DataStoreBase \<Rightarrow> u32 list \<Rightarrow> DataStoreBase option" where
  "finishCompact s [] = Some s"
| "finishCompact s (b # toHold) =
     do { st \<leftarrow> vec_at (states s) (unat b);
          s1 \<leftarrow> (if bs_state st = HOLD then Some s else holdBuffer s b);
          finishCompact s1 toHold }"

text \<open>
  Modelled from the spec: allocation with the capacity guarantee (sections 6 and 8):
  make room in the active buffer of the type, then use \<open>n\<close> elements at its end.
\<close>

definition allocate :: "DataStoreBase \<Rightarrow> u32 \<Rightarrow> u64 \<Rightarrow> DataStoreBase option" where
  "allocate s typeId n =
     do { s1 \<leftarrow> ensureBufferCapacity s typeId n;
          b \<leftarrow> vec_at (activeBufferIds s1) (unat typeId);
          st \<leftarrow> vec_at (states s1) (unat b);
          Some (s1\<lparr>states := (states s1)[unat b :=
                   st\<lparr>bs_usedElems := bs_usedElems st + n\<rparr>]\<rparr>) }"

subsection \<open>The hold lists\<close>

text \<open>
  Modelled from the spec: \<^verbatim>\<open>recordHold(reference, length)\<close> "appends to the pending
  list".
\<close>

definition recordHold :: "DataStoreBase \<Rightarrow> EntryRef \<Rightarrow> u64 \<Rightarrow> DataStoreBase" where
  "recordHold s r l = s\<lparr>elemHold1List := elemHold1List s @ [\<lparr>ref = r, len = l\<rparr>]\<rparr>"

text \<open>
  Modelled from the spec: \<^verbatim>\<open>transferElemHoldList(generation)\<close> and
  \<^verbatim>\<open>transferHoldLists(generation)\<close> (declared in the header, defined in the missing
  datastorebase.cpp): every pending entry goes to the newest end of the stamped list
  with the generation attached, one after the other, and the pending list is cleared.
  The retired allocations of the generation holder are stamped the same way.
\<close>

fun pushStamped ::
  "generation_t \<Rightarrow> ElemHold1ListElem list \<Rightarrow> ElemHold2ListElem list \<Rightarrow> ElemHold2ListElem list"
where
  "pushStamped g [] hold2 = hold2"
| "pushStamped g (h # hold1) hold2 = pushStamped g hold1 (hold2 @ [mkElemHold2 h g])"

definition transferElemHoldList :: "DataStoreBase \<Rightarrow> generation_t \<Rightarrow> DataStoreBase" where
  "transferElemHoldList s g =
     s\<lparr>elemHold2List := pushStamped g (elemHold1List s) (elemHold2List s),
       elemHold1List := []\<rparr>"

definition GenerationHolder_transferHoldLists ::
  "GenerationHolder \<Rightarrow> generation_t \<Rightarrow> GenerationHolder" where
  "GenerationHolder_transferHoldLists h g =
     \<lparr>gh_hold1List = [], gh_hold2List = gh_hold2List h @ map (\<lambda>x. (x, g)) (gh_hold1List h)\<rparr>"

definition transferHoldLists :: "DataStoreBase \<Rightarrow> generation_t \<Rightarrow> DataStoreBase" where
  "transferHoldLists s g =
     transferElemHoldList
       (s\<lparr>genHolder := GenerationHolder_transferHoldLists (genHolder s) g\<rparr>) g"

text \<open>
  Modelled from the spec: \<^verbatim>\<open>trimElemHoldList(usedGen)\<close> (pure virtual in the header) and
  \<^verbatim>\<open>trimHoldLists(usedGen)\<close>: the scan starts at the oldest end of the stamped list,
  releases an entry while its generation is strictly less than \<open>usedGen\<close> and stops at
  the first entry that is not. \<open>trimScan\<close> returns the released entries and the entries
  that stay.
\<close>

fun trimScan ::
  "generation_t \<Rightarrow> ElemHold2ListElem list \<Rightarrow> ElemHold2ListElem list \<times> ElemHold2ListElem list"
where
  "trimScan usedGen [] = ([], [])"
| "trimScan usedGen (e # es) =
     (if generation e < usedGen
      then (case trimScan usedGen es of (released, rest) \<Rightarrow> (e # released, rest))
      else ([], e # es))"

definition trimElemHoldList :: "DataStoreBase \<Rightarrow> generation_t \<Rightarrow> DataStoreBase" where
  "trimElemHoldList s usedGen =
     s\<lparr>elemHold2List := snd (trimScan usedGen (elemHold2List s))\<rparr>"

definition GenerationHolder_trimHoldLists ::
  "GenerationHolder \<Rightarrow> generation_t \<Rightarrow> GenerationHolder" where
  "GenerationHolder_trimHoldLists h usedGen =
     h\<lparr>gh_hold2List := dropWhile (\<lambda>x. snd x < usedGen) (gh_hold2List h)\<rparr>"

definition trimHoldLists :: "DataStoreBase \<Rightarrow> generation_t \<Rightarrow> DataStoreBase" where
  "trimHoldLists s usedGen =
     (trimElemHoldList s usedGen)
       \<lparr>genHolder := GenerationHolder_trimHoldLists (genHolder s) usedGen\<rparr>"

text \<open>The entries a call of \<^verbatim>\<open>trimHoldLists\<close> releases.\<close>

definition releasedBy :: "DataStoreBase \<Rightarrow> generation_t \<Rightarrow> ElemHold2ListElem list" where
  "releasedBy s usedGen = fst (trimScan usedGen (elemHold2List s))"

subsection \<open>Memory statistics\<close>

text \<open>
  Modelled from the spec: \<^verbatim>\<open>getMemStats() const\<close> "aggregate counts (alloc/used/dead/held
  elements and bytes, buffer counts by state)". A Free slot counts as a free buffer;
  an Active or Held one adds its element counts, and the same counts times the element
  size of its type as bytes (no bytes when its type id has no descriptor). The method is
  \<^verbatim>\<open>const\<close>; the arena is handed through and returned.
\<close>

definition elemSizeOf :: "BufferTypeBase list \<Rightarrow> u32 \<Rightarrow> u64" where
  "elemSizeOf hs typeId =
     (case vec_at hs (unat typeId) of None \<Rightarrow> 0 | Some d \<Rightarrow> elementSize d)"

definition elemStats :: "BufferTypeBase list \<Rightarrow> BufferState \<Rightarrow> MemStats" where
  "elemStats hs st =
     (let sz = elemSizeOf hs (bs_typeId st) in
      \<lparr>allocElems = bs_allocElems st, usedElems = bs_usedElems st,
       deadElems = bs_deadElems st, holdElems = bs_holdElems st,
       allocBytes = bs_allocElems st * sz, usedBytes = bs_usedElems st * sz,
       deadBytes = bs_deadElems st * sz, holdBytes = bs_holdElems st * sz,
       freeBuffers = 0, activeBuffers = 0, holdBuffers = 0\<rparr>)"

definition bufferStats :: "BufferTypeBase list \<Rightarrow> BufferState \<Rightarrow> MemStats" where
  "bufferStats hs st =
     (case bs_state st of
        FREE \<Rightarrow> MemStats_init\<lparr>freeBuffers := 1\<rparr>
      | ACTIVE \<Rightarrow> (elemStats hs st)\<lparr>activeBuffers := 1\<rparr>
      | HOLD \<Rightarrow> (elemStats hs st)\<lparr>holdBuffers := 1\<rparr>)"

fun sumStats :: "BufferTypeBase list \<Rightarrow> MemStats \<Rightarrow> BufferState list \<Rightarrow> MemStats" where
  "sumStats hs stats [] = stats"
| "sumStats hs stats (st # sts) = sumStats hs (MemStats_add stats (bufferStats hs st)) sts"

definition getMemStats :: "DataStoreBase \<Rightarrow> MemStats \<times> DataStoreBase" where
  "getMemStats s = (sumStats (typeHandlers s) MemStats_init (states s), s)"

subsection \<open>The arena as a state machine\<close>

datatype operation =
    AddType BufferTypeBase
  | EnsureBufferCapacity u32 u64
  | SwitchActiveBuffer u32 u64
  | Allocate u32 u64
  | HoldBuffer u32
  | DoneHoldBuffer u32
  | FinishCompact "u32 list"
  | FallbackResize u32 u64
  | IncDead u32 u64
  | RecordHold EntryRef u64
  | TransferHoldLists generation_t
  | TrimHoldLists generation_t
  | GetMemStats

fun step :: "DataStoreBase \<Rightarrow> operation \<Rightarrow> DataStoreBase option" where
  "step s (AddType d) = addType s d"
| "step s (EnsureBufferCapacity t n) = ensureBufferCapacity s t n"
| "step s (SwitchActiveBuffer t n) = switchActiveBuffer s t n"
| "step s (Allocate t n) = allocate s t n"
| "step s (HoldBuffer b) = holdBuffer s b"
| "step s (DoneHoldBuffer b) = doneHoldBuffer s b"
| "step s (FinishCompact bs) = finishCompact s bs"
| "step s (FallbackResize b n) = fallbackResize s b n"
| "step s (IncDead b d) = incDead s b d"
| "step s (RecordHold r l) = Some (recordHold s r l)"
| "step s (TransferHoldLists g) = Some (transferHoldLists s g)"
| "step s (TrimHoldLists g) = Some (trimHoldLists s g)"
| "step s GetMemStats = Some (snd (getMemStats s))"

text \<open>
  The states an arena reaches from its construction by operations that return; \<open>ok\<close>
  restricts the calls that are made (\<open>\<lambda>_ _. True\<close> for none).
\<close>

inductive reach :: "(DataStoreBase \<Rightarrow> operation \<Rightarrow> bool) \<Rightarrow> DataStoreBase \<Rightarrow> bool"
  for ok :: "DataStoreBase \<Rightarrow> operation \<Rightarrow> bool"
where
  reach_init: "reach ok (DataStoreBase_init n m)"
| reach_step: "reach ok s \<Longrightarrow> ok s op \<Longrightarrow> step s op = Some s' \<Longrightarrow> reach ok s'"

subsection \<open>Observations used in the statements\<close>

text \<open>The remaining capacity of the active buffer of a type.\<close>

definition activeRemaining :: "DataStoreBase \<Rightarrow> u32 \<Rightarrow> u64 option" where
  "activeRemaining s typeId =
     do { b \<leftarrow> vec_at (activeBufferIds s) (unat typeId);
          st \<leftarrow> vec_at (states s) (unat b);
          Some (remaining st) }"

text \<open>
  The count invariant of a buffer, and of all buffers of the arena.
\<close>

definition bufferInv :: "BufferState \<Rightarrow> bool" where
  "bufferInv st = (bs_deadElems st \<le> bs_usedElems st \<and> bs_usedElems st \<le> bs_allocElems st)"

definition arenaInv :: "DataStoreBase \<Rightarrow> bool" where
  "arenaInv s = list_all bufferInv (states s)"

text \<open>
  The calls of \<^verbatim>\<open>incDead\<close> that stay within the used elements of the buffer; the code
  has no such test, it is the caller's obligation.
\<close>

fun deadWithinUsed :: "DataStoreBase \<Rightarrow> operation \<Rightarrow> bool" where
  "deadWithinUsed s (IncDead b d) =
     (case vec_at (states s) (unat b) of
        None \<Rightarrow> False
      | Some st \<Rightarrow> unat (bs_deadElems st) + unat d \<le> unat (bs_usedElems st))"
| "deadWithinUsed s c = True"

text \<open>
  Buffers that are not Free, and the number of buffers in a given state.
\<close>

definition inUse :: "BufferState \<Rightarrow> bool" where
  "inUse st = (bs_state st \<noteq> FREE)"

definition countState :: "State \<Rightarrow> BufferState list \<Rightarrow> nat" where
  "countState x sts = length (filter (\<lambda>st. bs_state st = x) sts)"

text \<open>
  The calls of \<^verbatim>\<open>transferHoldLists\<close> whose generation is not less than any generation
  stamped before: the generation is a counter that only increases, and the one passed is
  the one current at the transfer.
\<close>

fun generationsAdvance :: "DataStoreBase \<Rightarrow> operation \<Rightarrow> bool" where
  "generationsAdvance s (TransferHoldLists g) =
     list_all (\<lambda>e. generation e \<le> g) (elemHold2List s)"
| "generationsAdvance s c = True"

text \<open>No restriction on the calls.\<close>

definition anyCall :: "DataStoreBase \<Rightarrow> operation \<Rightarrow> bool" where
  "anyCall s c = True"

subsection \<open>A small arena, used for the concrete instances\<close>

text \<open>
  A pool of three slots and one type with 8 to 1024 elements per buffer. \<open>arena0\<close> is the
  pool as constructed, \<open>arena1\<close> after \<^verbatim>\<open>addType\<close>, \<open>arena2\<close> after 8 elements were
  allocated, \<open>arena3\<close> after room for one more was asked for.
\<close>

definition exType :: BufferTypeBase where
  "exType = \<lparr>elementSize = 4, minElems = 8, maxElems = 1024\<rparr>"

definition exBuffer :: "u64 \<Rightarrow> u64 \<Rightarrow> u64 \<Rightarrow> State \<Rightarrow> BufferState" where
  "exBuffer used alloc dead st =
     \<lparr>bs_usedElems = used, bs_allocElems = alloc, bs_deadElems = dead, bs_holdElems = 0,
      bs_state = st, bs_typeId = 0\<rparr>"

definition exArena :: "nat option list \<Rightarrow> u32 \<Rightarrow> BufferState list \<Rightarrow> DataStoreBase" where
  "exArena bufs act sts =
     \<lparr>buffers = bufs, activeBufferIds = [act], states = sts, typeHandlers = [exType],
      freeListsEnabled = False, elemHold1List = [], elemHold2List = [],
      numBuffers = 3, maxClusters = 0,
      genHolder = \<lparr>gh_hold1List = [], gh_hold2List = []\<rparr>\<rparr>"

definition arena0 :: DataStoreBase where
  "arena0 =
     \<lparr>buffers = [None, None, None], activeBufferIds = [],
      states = [freeBufferState, freeBufferState, freeBufferState], typeHandlers = [],
      freeListsEnabled = False, elemHold1List = [], elemHold2List = [],
      numBuffers = 3, maxClusters = 0,
      genHolder = \<lparr>gh_hold1List = [], gh_hold2List = []\<rparr>\<rparr>"

definition arena1 :: DataStoreBase where
  "arena1 = exArena [Some 8, None, None] 0
     [exBuffer 0 8 0 ACTIVE, freeBufferState, freeBufferState]"

definition arena2 :: DataStoreBase where
  "arena2 = exArena [Some 8, None, None] 0
     [exBuffer 8 8 0 ACTIVE, freeBufferState, freeBufferState]"

definition arena3 :: DataStoreBase where
  "arena3 = exArena [Some 8, Some 16, None] 1
     [exBuffer 8 8 0 HOLD, exBuffer 0 16 0 ACTIVE, freeBufferState]"

text \<open>
  \<open>arena1Dead\<close> and \<open>arena2Dead\<close> are \<open>arena1\<close> and \<open>arena2\<close> after
  \<^verbatim>\<open>incDead(0, 1)\<close> and \<^verbatim>\<open>incDead(0, 3)\<close>.
\<close>

definition arena1Dead :: DataStoreBase where
  "arena1Dead = exArena [Some 8, None, None] 0
     [exBuffer 0 8 1 ACTIVE, freeBufferState, freeBufferState]"

definition arena2Dead :: DataStoreBase where
  "arena2Dead = exArena [Some 8, None, None] 0
     [exBuffer 8 8 3 ACTIVE, freeBufferState, freeBufferState]"

text \<open>
  Two elements put on hold and stamped, the first at generation 3 and the second at
  generation 5.
\<close>

definition exRef :: EntryRef where
  "exRef = \<lparr>ref_bufferId = 0, ref_offset = 0\<rparr>"

definition exHeld :: "generation_t \<Rightarrow> ElemHold2ListElem" where
  "exHeld g = \<lparr>ref = exRef, len = 1, generation = g\<rparr>"

definition heldOrdered :: DataStoreBase where
  "heldOrdered =
     transferHoldLists (recordHold (transferHoldLists (recordHold arena0 exRef 1) 3) exRef 1) 5"

section \<open>Lemmas\<close>

subsection \<open>What an operation that returns has done\<close>

lemma vec_at_Some: "(vec_at v i = Some x) = (i < length v \<and> v ! i = x)"
  by (auto simp: vec_at_def)

lemma vec_at_None: "(vec_at v i = None) = (length v \<le> i)"
  by (auto simp: vec_at_def)

lemma calcAlloc_bounds:
  "calcAlloc d p need = Some c \<Longrightarrow> need \<le> c \<and> c \<le> unat (maxElems d)"
  by (auto simp: calcAlloc_def split: if_splits)

lemma onActive_SomeD:
  assumes "onActive s b t n = Some s1"
  shows "\<exists>d c. vec_at (typeHandlers s) (unat t) = Some d
           \<and> calcAlloc d (prevCapacity s t) (unat n) = Some c
           \<and> unat b < length (states s) \<and> unat b < length (buffers s)
           \<and> bs_state (states s ! unat b) = FREE
           \<and> s1 = s\<lparr>states := (states s)[unat b := activated t c],
                    buffers := (buffers s)[unat b := Some c]\<rparr>"
  using assms
  by (auto simp: onActive_def bind_eq_Some_conv vec_at_Some split: if_splits)

lemma holdBuffer_SomeD:
  assumes "holdBuffer s b = Some s1"
  shows "unat b < length (states s) \<and> bs_state (states s ! unat b) = ACTIVE
         \<and> s1 = s\<lparr>states := (states s)[unat b := (states s ! unat b)\<lparr>bs_state := HOLD\<rparr>]\<rparr>"
  using assms
  by (auto simp: holdBuffer_def bind_eq_Some_conv vec_at_Some split: if_splits)

lemma doneHoldBuffer_SomeD:
  assumes "doneHoldBuffer s b = Some s1"
  shows "unat b < length (states s) \<and> unat b < length (buffers s)
         \<and> bs_state (states s ! unat b) = HOLD
         \<and> s1 = s\<lparr>states := (states s)[unat b :=
                     (states s ! unat b)\<lparr>bs_usedElems := 0, bs_allocElems := 0,
                        bs_deadElems := 0, bs_holdElems := 0, bs_state := FREE\<rparr>],
                   buffers := (buffers s)[unat b := None]\<rparr>"
  using assms
  by (auto simp: doneHoldBuffer_def bind_eq_Some_conv vec_at_Some split: if_splits)

lemma fallbackResize_SomeD:
  assumes "fallbackResize s b n = Some s1"
  shows "\<exists>ext. unat b < length (states s) \<and> unat b < length (buffers s)
         \<and> buffers s ! unat b = Some ext
         \<and> bs_state (states s ! unat b) = ACTIVE \<and> bs_allocElems (states s ! unat b) \<le> n
         \<and> s1 = s\<lparr>states := (states s)[unat b := (states s ! unat b)\<lparr>bs_allocElems := n\<rparr>],
                   buffers := (buffers s)[unat b := Some (unat n)],
                   genHolder := (genHolder s)\<lparr>gh_hold1List :=
                          gh_hold1List (genHolder s) @
                            [\<lparr>fb_buffer = ext, fb_usedElems = bs_usedElems (states s ! unat b),
                              fb_typeId = bs_typeId (states s ! unat b)\<rparr>]\<rparr>\<rparr>"
  using assms
  by (auto simp: fallbackResize_def bind_eq_Some_conv vec_at_Some split: if_splits)

lemma switchActiveBuffer_SomeD:
  assumes "switchActiveBuffer s t n = Some s'"
  shows "\<exists>cur. vec_at (activeBufferIds s) (unat t) = Some cur \<and> unat cur < length (states s)
     \<and> ((\<exists>b s1 s2. findFree s (unat (numBuffers s)) (nextBufferId s cur) = Some b
            \<and> onActive s b t n = Some s1
            \<and> (if bs_state (states s ! unat cur) = ACTIVE \<and> bs_typeId (states s ! unat cur) = t
                then holdBuffer s1 cur else Some s1) = Some s2
            \<and> s' = s2\<lparr>activeBufferIds := (activeBufferIds s2)[unat t := b]\<rparr>)
        \<or> (\<exists>d c. findFree s (unat (numBuffers s)) (nextBufferId s cur) = None
            \<and> vec_at (typeHandlers s) (unat t) = Some d
            \<and> bs_state (states s ! unat cur) = ACTIVE \<and> bs_typeId (states s ! unat cur) = t
            \<and> calcAlloc d (unat (bs_allocElems (states s ! unat cur)))
                 (unat (bs_usedElems (states s ! unat cur)) + unat n) = Some c
            \<and> fallbackResize s cur (of_nat c) = Some s'))"
proof -
  obtain cur curSt where cur: "vec_at (activeBufferIds s) (unat t) = Some cur"
    and curSt: "vec_at (states s) (unat cur) = Some curSt"
    and rest: "(case findFree s (unat (numBuffers s)) (nextBufferId s cur) of
            Some b \<Rightarrow>
              do { s1 \<leftarrow> onActive s b t n;
                   s2 \<leftarrow> (if bs_state curSt = ACTIVE \<and> bs_typeId curSt = t
                          then holdBuffer s1 cur else Some s1);
                   Some (s2\<lparr>activeBufferIds := (activeBufferIds s2)[unat t := b]\<rparr>) }
          | None \<Rightarrow>
              do { d \<leftarrow> vec_at (typeHandlers s) (unat t);
                   if bs_state curSt = ACTIVE \<and> bs_typeId curSt = t
                   then do { c \<leftarrow> calcAlloc d (unat (bs_allocElems curSt))
                                   (unat (bs_usedElems curSt) + unat n);
                             fallbackResize s cur (of_nat c) }
                   else None }) = Some s'"
    using assms by (auto simp: switchActiveBuffer_def bind_eq_Some_conv)
  from curSt have lt: "unat cur < length (states s)" and st: "curSt = states s ! unat cur"
    by (auto simp: vec_at_Some)
  show ?thesis
  proof (cases "findFree s (unat (numBuffers s)) (nextBufferId s cur)")
    case None
    with rest have "\<exists>d c. vec_at (typeHandlers s) (unat t) = Some d
            \<and> bs_state curSt = ACTIVE \<and> bs_typeId curSt = t
            \<and> calcAlloc d (unat (bs_allocElems curSt))
                 (unat (bs_usedElems curSt) + unat n) = Some c
            \<and> fallbackResize s cur (of_nat c) = Some s'"
      by (auto simp: bind_eq_Some_conv split: if_split_asm)
    with None cur lt st show ?thesis by blast
  next
    case (Some b)
    with rest have "\<exists>s1 s2. onActive s b t n = Some s1
            \<and> (if bs_state curSt = ACTIVE \<and> bs_typeId curSt = t
                then holdBuffer s1 cur else Some s1) = Some s2
            \<and> s' = s2\<lparr>activeBufferIds := (activeBufferIds s2)[unat t := b]\<rparr>"
      by (simp add: bind_eq_Some_conv split del: if_split) blast
    with Some cur lt st show ?thesis by blast
  qed
qed

lemma switchActiveBuffer_free_effect:
  assumes sw: "switchActiveBuffer s t n = Some s'"
    and cur: "vec_at (activeBufferIds s) (unat t) = Some cur"
    and ff: "findFree s (unat (numBuffers s)) (nextBufferId s cur) = Some b"
  shows "\<exists>d c. vec_at (typeHandlers s) (unat t) = Some d
      \<and> calcAlloc d (prevCapacity s t) (unat n) = Some c
      \<and> unat b < length (states s) \<and> unat b < length (buffers s)
      \<and> unat cur < length (states s) \<and> unat t < length (activeBufferIds s)
      \<and> bs_state (states s ! unat b) = FREE
      \<and> s' = s\<lparr>states :=
                 (if bs_state (states s ! unat cur) = ACTIVE \<and> bs_typeId (states s ! unat cur) = t
                  then ((states s)[unat b := activated t c])
                         [unat cur := (states s ! unat cur)\<lparr>bs_state := HOLD\<rparr>]
                  else (states s)[unat b := activated t c]),
               buffers := (buffers s)[unat b := Some c],
               activeBufferIds := (activeBufferIds s)[unat t := b]\<rparr>"
proof -
  from switchActiveBuffer_SomeD [OF sw] cur ff obtain s1 s2 where
    lt: "unat cur < length (states s)"
    and on: "onActive s b t n = Some s1"
    and hold: "(if bs_state (states s ! unat cur) = ACTIVE \<and> bs_typeId (states s ! unat cur) = t
                then holdBuffer s1 cur else Some s1) = Some s2"
    and s': "s' = s2\<lparr>activeBufferIds := (activeBufferIds s2)[unat t := b]\<rparr>"
    by auto
  from onActive_SomeD [OF on] obtain d c where
    d: "vec_at (typeHandlers s) (unat t) = Some d"
    and c: "calcAlloc d (prevCapacity s t) (unat n) = Some c"
    and b: "unat b < length (states s)" "unat b < length (buffers s)"
       "bs_state (states s ! unat b) = FREE"
    and s1: "s1 = s\<lparr>states := (states s)[unat b := activated t c],
                    buffers := (buffers s)[unat b := Some c]\<rparr>"
    by blast
  from cur have tlt: "unat t < length (activeBufferIds s)" by (simp add: vec_at_Some)
  have "s' = s\<lparr>states :=
                 (if bs_state (states s ! unat cur) = ACTIVE \<and> bs_typeId (states s ! unat cur) = t
                  then ((states s)[unat b := activated t c])
                         [unat cur := (states s ! unat cur)\<lparr>bs_state := HOLD\<rparr>]
                  else (states s)[unat b := activated t c]),
               buffers := (buffers s)[unat b := Some c],
               activeBufferIds := (activeBufferIds s)[unat t := b]\<rparr>"
  proof (cases "bs_state (states s ! unat cur) = ACTIVE \<and> bs_typeId (states s ! unat cur) = t")
    case True
    with b have ne: "unat cur \<noteq> unat b" by auto
    from True hold have "holdBuffer s1 cur = Some s2" by simp
    from holdBuffer_SomeD [OF this] ne s1 s' True show ?thesis by simp
  next
    case False
    with hold have "s2 = s1" by simp
    with s1 s' False show ?thesis by auto
  qed
  with d c b lt tlt show ?thesis by blast
qed

lemma switchActiveBuffer_grow_effect:
  assumes sw: "switchActiveBuffer s t n = Some s'"
    and cur: "vec_at (activeBufferIds s) (unat t) = Some cur"
    and ff: "findFree s (unat (numBuffers s)) (nextBufferId s cur) = None"
  shows "\<exists>d c. vec_at (typeHandlers s) (unat t) = Some d
      \<and> bs_state (states s ! unat cur) = ACTIVE \<and> bs_typeId (states s ! unat cur) = t
      \<and> calcAlloc d (unat (bs_allocElems (states s ! unat cur)))
           (unat (bs_usedElems (states s ! unat cur)) + unat n) = Some c
      \<and> fallbackResize s cur (of_nat c) = Some s'"
  using switchActiveBuffer_SomeD [OF sw] cur ff by auto

lemma incDead_SomeD:
  assumes "incDead s b d = Some s'"
  shows "unat b < length (states s)
     \<and> s' = s\<lparr>states := (states s)[unat b :=
                 (states s ! unat b)\<lparr>bs_deadElems := bs_deadElems (states s ! unat b) + d\<rparr>]\<rparr>"
  using assms by (auto simp: incDead_def bind_eq_Some_conv vec_at_Some)

lemma addType_SomeD:
  assumes "addType s d = Some s'"
  shows "\<exists>b s1. length (typeHandlers s) < 2 ^ 32 - 1
      \<and> findFree s (unat (numBuffers s)) 0 = Some b
      \<and> onActive (s\<lparr>typeHandlers := typeHandlers s @ [d]\<rparr>) b
            (of_nat (length (typeHandlers s))) 0 = Some s1
      \<and> s' = s1\<lparr>activeBufferIds := activeBufferIds s1 @ [b]\<rparr>"
  using assms
  by (auto simp: addType_def bind_eq_Some_conv split: if_split_asm option.splits)

lemma allocate_SomeD:
  assumes "allocate s t n = Some s'"
  shows "\<exists>s1 b. ensureBufferCapacity s t n = Some s1
      \<and> vec_at (activeBufferIds s1) (unat t) = Some b \<and> unat b < length (states s1)
      \<and> s' = s1\<lparr>states := (states s1)[unat b :=
                 (states s1 ! unat b)\<lparr>bs_usedElems := bs_usedElems (states s1 ! unat b) + n\<rparr>]\<rparr>"
  using assms
  by (auto simp: allocate_def bind_eq_Some_conv vec_at_Some)

subsection \<open>The capacity after ensureBufferCapacity\<close>

lemma le_of_nat_alloc:
  fixes n m :: u64
  assumes "unat n \<le> c" "c \<le> unat m"
  shows "n \<le> of_nat c"
  using assms by (simp add: word_le_nat_alt le_unat_uoi [of c m])

lemma switchActiveBuffer_remaining:
  assumes "switchActiveBuffer s t n = Some s'"
  shows "\<exists>r. activeRemaining s' t = Some r \<and> n \<le> r"
proof -
  from switchActiveBuffer_SomeD [OF assms] obtain cur where
    cur: "vec_at (activeBufferIds s) (unat t) = Some cur" "unat cur < length (states s)"
    and alt: "(\<exists>b s1 s2. findFree s (unat (numBuffers s)) (nextBufferId s cur) = Some b
            \<and> onActive s b t n = Some s1
            \<and> (if bs_state (states s ! unat cur) = ACTIVE \<and> bs_typeId (states s ! unat cur) = t
                then holdBuffer s1 cur else Some s1) = Some s2
            \<and> s' = s2\<lparr>activeBufferIds := (activeBufferIds s2)[unat t := b]\<rparr>)
        \<or> (\<exists>d c. findFree s (unat (numBuffers s)) (nextBufferId s cur) = None
            \<and> vec_at (typeHandlers s) (unat t) = Some d
            \<and> bs_state (states s ! unat cur) = ACTIVE \<and> bs_typeId (states s ! unat cur) = t
            \<and> calcAlloc d (unat (bs_allocElems (states s ! unat cur)))
                 (unat (bs_usedElems (states s ! unat cur)) + unat n) = Some c
            \<and> fallbackResize s cur (of_nat c) = Some s')"
    by blast
  from cur have tlt: "unat t < length (activeBufferIds s)" and cur_eq: "activeBufferIds s ! unat t = cur"
    by (auto simp: vec_at_Some)
  from alt show ?thesis
  proof (elim disjE exE conjE)
    fix b s1 s2
    assume on: "onActive s b t n = Some s1"
      and hold: "(if bs_state (states s ! unat cur) = ACTIVE \<and> bs_typeId (states s ! unat cur) = t
                then holdBuffer s1 cur else Some s1) = Some s2"
      and s': "s' = s2\<lparr>activeBufferIds := (activeBufferIds s2)[unat t := b]\<rparr>"
    from onActive_SomeD [OF on] obtain d c where
      d: "vec_at (typeHandlers s) (unat t) = Some d"
      and c: "calcAlloc d (prevCapacity s t) (unat n) = Some c"
      and b: "unat b < length (states s)" "bs_state (states s ! unat b) = FREE"
      and s1: "s1 = s\<lparr>states := (states s)[unat b := activated t c],
                    buffers := (buffers s)[unat b := Some c]\<rparr>"
      by blast
    have act2: "activeBufferIds s2 = activeBufferIds s"
      and st2: "states s2 ! unat b = activated t c"
      and len2: "length (states s2) = length (states s)"
    proof -
      show "activeBufferIds s2 = activeBufferIds s"
        using hold s1 by (auto split: if_split_asm dest!: holdBuffer_SomeD)
      show "length (states s2) = length (states s)"
        using hold s1 by (auto split: if_split_asm dest!: holdBuffer_SomeD)
      show "states s2 ! unat b = activated t c"
      proof (cases "bs_state (states s ! unat cur) = ACTIVE \<and> bs_typeId (states s ! unat cur) = t")
        case True
        with b have ne: "unat cur \<noteq> unat b" by auto
        from True hold have "holdBuffer s1 cur = Some s2" by simp
        from holdBuffer_SomeD [OF this] ne b s1 show ?thesis by simp
      next
        case False
        with hold have "s2 = s1" by simp
        with s1 b show ?thesis by simp
      qed
    qed
    from calcAlloc_bounds [OF c] have "n \<le> of_nat c"
      by (intro le_of_nat_alloc [of n c "maxElems d"]) simp_all
    with s' act2 st2 len2 tlt b show ?thesis
      by (simp add: activeRemaining_def vec_at_def remaining_def activated_def)
  next
    fix d c
    assume st: "bs_state (states s ! unat cur) = ACTIVE"
      and c: "calcAlloc d (unat (bs_allocElems (states s ! unat cur)))
                 (unat (bs_usedElems (states s ! unat cur)) + unat n) = Some c"
      and fb: "fallbackResize s cur (of_nat c) = Some s'"
    let ?u = "bs_usedElems (states s ! unat cur)"
    from calcAlloc_bounds [OF c] have bnd: "unat ?u + unat n \<le> c" "c \<le> unat (maxElems d)"
      by simp_all
    then have uc: "unat (of_nat c :: u64) = c"
      by (simp add: le_unat_uoi [of c "maxElems d"])
    with bnd have ule: "?u \<le> of_nat c" by (simp add: word_le_nat_alt)
    have "unat (of_nat c - ?u) = c - unat ?u"
      using unat_sub [OF ule] uc by simp
    with bnd have "n \<le> of_nat c - ?u" by (simp add: word_le_nat_alt)
    with fallbackResize_SomeD [OF fb] tlt cur_eq show ?thesis
      by (auto simp: activeRemaining_def vec_at_def remaining_def)
  qed
qed

lemma ensureBufferCapacity_cases:
  assumes "ensureBufferCapacity s t n = Some s'"
  shows "\<exists>r. activeRemaining s t = Some r
           \<and> (if r < n then switchActiveBuffer s t n = Some s' else s' = s)"
  using assms
  by (auto simp: ensureBufferCapacity_def activeRemaining_def bind_eq_Some_conv
      split: if_split_asm)

lemma ensureBufferCapacity_remaining:
  assumes "ensureBufferCapacity s t n = Some s'"
  shows "\<exists>r. activeRemaining s' t = Some r \<and> n \<le> r"
proof -
  from ensureBufferCapacity_cases [OF assms] obtain r where
    r: "activeRemaining s t = Some r"
    and alt: "if r < n then switchActiveBuffer s t n = Some s' else s' = s"
    by blast
  show ?thesis
  proof (cases "r < n")
    case True
    with alt show ?thesis by (simp add: switchActiveBuffer_remaining)
  next
    case False
    with alt r show ?thesis by simp
  qed
qed

lemma ensureBufferCapacity_hit:
  assumes "activeRemaining s t = Some r" "n \<le> r"
  shows "ensureBufferCapacity s t n = Some s"
proof -
  from assms(2) have "\<not> r < n" by (simp add: not_less)
  with assms(1) show ?thesis
    by (auto simp: ensureBufferCapacity_def activeRemaining_def bind_eq_Some_conv)
qed

subsection \<open>The round-robin scan\<close>

lemma findFree_Some:
  "findFree s n b = Some f \<Longrightarrow>
     \<exists>k<n. f = (nextBufferId s ^^ k) b \<and> isFree s f
        \<and> (\<forall>j<k. \<not> isFree s ((nextBufferId s ^^ j) b))"
proof (induction n arbitrary: b)
  case 0
  then show ?case by simp
next
  case (Suc n)
  show ?case
  proof (cases "isFree s b")
    case True
    with Suc.prems have "f = b" by simp
    with True show ?thesis by (intro exI [of _ 0]) simp
  next
    case False
    with Suc.prems have "findFree s n (nextBufferId s b) = Some f" by simp
    from Suc.IH [OF this] obtain k where k: "k < n"
      "f = (nextBufferId s ^^ k) (nextBufferId s b)" "isFree s f"
      "\<forall>j<k. \<not> isFree s ((nextBufferId s ^^ j) (nextBufferId s b))"
      by blast
    have "\<forall>j<Suc k. \<not> isFree s ((nextBufferId s ^^ j) b)"
    proof (intro allI impI)
      fix j assume "j < Suc k"
      show "\<not> isFree s ((nextBufferId s ^^ j) b)"
      proof (cases j)
        case 0
        with False show ?thesis by simp
      next
        case (Suc i)
        with \<open>j < Suc k\<close> k(4) show ?thesis by (simp add: funpow_swap1)
      qed
    qed
    with k show ?thesis
      by (intro exI [of _ "Suc k"]) (simp add: funpow_swap1)
  qed
qed

lemma findFree_None:
  "findFree s n b = None \<Longrightarrow> \<forall>k<n. \<not> isFree s ((nextBufferId s ^^ k) b)"
proof (induction n arbitrary: b)
  case 0
  then show ?case by simp
next
  case (Suc n)
  from Suc.prems have nf: "\<not> isFree s b" and rest: "findFree s n (nextBufferId s b) = None"
    by (auto split: if_split_asm)
  show ?case
  proof (intro allI impI)
    fix k assume "k < Suc n"
    show "\<not> isFree s ((nextBufferId s ^^ k) b)"
    proof (cases k)
      case 0
      with nf show ?thesis by simp
    next
      case (Suc i)
      with \<open>k < Suc n\<close> Suc.IH [OF rest] show ?thesis by (simp add: funpow_swap1)
    qed
  qed
qed

lemma nextBufferId_succ:
  "unat b + 1 < unat (numBuffers s) \<Longrightarrow> unat (nextBufferId s b) = unat b + 1"
proof -
  assume lt: "unat b + 1 < unat (numBuffers s)"
  have "unat (numBuffers s) < 2 ^ 32" using unsigned_less [of "numBuffers s"] by simp
  with lt have "unat b + unat (1::u32) < 2 ^ LENGTH(32)" by simp
  then have u: "unat (b + 1) = unat b + 1" by (simp only: unat_add_lem [THEN iffD1] unat_1)
  with lt have "b + 1 \<noteq> numBuffers s" by auto
  with u show ?thesis by (simp add: nextBufferId_def)
qed

lemma nextBufferId_wrap:
  "unat b + 1 = unat (numBuffers s) \<Longrightarrow> nextBufferId s b = 0"
proof -
  assume eq: "unat b + 1 = unat (numBuffers s)"
  have "unat (numBuffers s) < 2 ^ 32" using unsigned_less [of "numBuffers s"] by simp
  with eq have "unat b + unat (1::u32) < 2 ^ LENGTH(32)" by simp
  then have "unat (b + 1) = unat b + 1" by (simp only: unat_add_lem [THEN iffD1] unat_1)
  with eq have "b + 1 = numBuffers s" by (simp add: word_unat_eq_iff)
  then show ?thesis by (simp add: nextBufferId_def)
qed

lemma switchActiveBuffer_returns:
  assumes cur: "vec_at (activeBufferIds s) (unat t) = Some cur"
    and curlt: "unat cur < length (states s)"
    and ff: "findFree s (unat (numBuffers s)) (nextBufferId s cur) = Some b"
    and blt: "unat b < length (buffers s)"
    and d: "vec_at (typeHandlers s) (unat t) = Some d"
    and n: "n \<le> maxElems d"
  shows "\<exists>s'. switchActiveBuffer s t n = Some s'"
proof -
  from findFree_Some [OF ff] have fr: "isFree s b" by blast
  then have b: "unat b < length (states s)" "bs_state (states s ! unat b) = FREE"
    by (auto simp: isFree_def vec_at_def split: if_split_asm)
  from n have "\<not> unat (maxElems d) < unat n" by (simp add: word_le_nat_alt)
  then obtain c where c: "calcAlloc d (prevCapacity s t) (unat n) = Some c"
    by (simp add: calcAlloc_def)
  let ?s1 = "s\<lparr>states := (states s)[unat b := activated t c],
                buffers := (buffers s)[unat b := Some c]\<rparr>"
  from b blt d c have on: "onActive s b t n = Some ?s1"
    by (simp add: onActive_def vec_at_def)
  have "\<exists>s2. (if bs_state (states s ! unat cur) = ACTIVE \<and> bs_typeId (states s ! unat cur) = t
                then holdBuffer ?s1 cur else Some ?s1) = Some s2"
  proof (cases "bs_state (states s ! unat cur) = ACTIVE \<and> bs_typeId (states s ! unat cur) = t")
    case True
    with b have "unat cur \<noteq> unat b" by auto
    with True curlt show ?thesis by (simp add: holdBuffer_def vec_at_def)
  next
    case False
    then show ?thesis by auto
  qed
  with cur curlt ff on show ?thesis
    by (auto simp: switchActiveBuffer_def vec_at_def split del: if_split)
qed

subsection \<open>The hold lists as lists\<close>

lemma pushStamped_append:
  "pushStamped g hold1 hold2 = hold2 @ map (\<lambda>h. mkElemHold2 h g) hold1"
  by (induction hold1 arbitrary: hold2) simp_all

lemma trimScan_takeWhile:
  "trimScan usedGen es =
     (takeWhile (\<lambda>e. generation e < usedGen) es, dropWhile (\<lambda>e. generation e < usedGen) es)"
  by (induction es) simp_all

lemma takeWhile_index_iff:
  "i < length xs \<Longrightarrow> (i < length (takeWhile P xs)) = (\<forall>j\<le>i. P (xs ! j))"
proof (induction xs arbitrary: i)
  case Nil
  then show ?case by simp
next
  case (Cons x xs)
  show ?case
  proof (cases i)
    case 0
    then show ?thesis by simp
  next
    case (Suc k)
    with Cons.prems have k: "k < length xs" by simp
    have "(\<forall>j\<le>Suc k. P ((x # xs) ! j)) = (P x \<and> (\<forall>j\<le>k. P (xs ! j)))"
      by (metis (no_types, lifting) Suc_le_mono le0 nth_Cons_0 nth_Cons_Suc not0_implies_Suc)
    with Cons.IH [OF k] Suc show ?thesis by simp
  qed
qed

lemma sorted_after_transfer:
  assumes "sorted (map generation l)" "\<forall>e\<in>set l. generation e \<le> g"
  shows "sorted (map generation (l @ map (\<lambda>h. mkElemHold2 h g) hs))"
proof -
  have "map generation (map (\<lambda>h. mkElemHold2 h g) hs) = replicate (length hs) g"
    by (induction hs) (simp_all add: mkElemHold2_def)
  with assms show ?thesis by (auto simp: sorted_append)
qed

lemma sorted_after_trim:
  assumes "sorted (map generation l)"
  shows "sorted (map generation (dropWhile (\<lambda>e. generation e < u) l))"
proof -
  have "map generation (dropWhile (\<lambda>e. generation e < u) l)
      = dropWhile (\<lambda>x. x < u) (map generation l)"
    by (simp add: dropWhile_map comp_def)
  with assms show ?thesis by (simp add: sorted_dropWhile)
qed

subsection \<open>The stamped list under each operation\<close>

lemma finishCompact_elemHold2List:
  "finishCompact s bs = Some s' \<Longrightarrow> elemHold2List s' = elemHold2List s"
proof (induction bs arbitrary: s)
  case Nil
  then show ?case by simp
next
  case (Cons b bs)
  from Cons.prems obtain s1 where
    s1: "(if bs_state (states s ! unat b) = HOLD then Some s else holdBuffer s b) = Some s1"
    and rest: "finishCompact s1 bs = Some s'"
    by (auto simp: bind_eq_Some_conv vec_at_Some split del: if_split)
  from s1 have "elemHold2List s1 = elemHold2List s"
    by (auto split: if_split_asm dest!: holdBuffer_SomeD)
  with Cons.IH [OF rest] show ?case by simp
qed

lemma switchActiveBuffer_elemHold2List:
  assumes "switchActiveBuffer s t n = Some s'"
  shows "elemHold2List s' = elemHold2List s"
proof -
  from switchActiveBuffer_SomeD [OF assms] obtain cur where
    cur: "vec_at (activeBufferIds s) (unat t) = Some cur" by blast
  show ?thesis
  proof (cases "findFree s (unat (numBuffers s)) (nextBufferId s cur)")
    case None
    from switchActiveBuffer_grow_effect [OF assms cur None]
    obtain c where "fallbackResize s cur (of_nat c) = Some s'" by blast
    then show ?thesis by (auto dest!: fallbackResize_SomeD)
  next
    case (Some b)
    from switchActiveBuffer_free_effect [OF assms cur Some] show ?thesis by auto
  qed
qed

lemma ensureBufferCapacity_elemHold2List:
  assumes "ensureBufferCapacity s t n = Some s'"
  shows "elemHold2List s' = elemHold2List s"
proof -
  from ensureBufferCapacity_cases [OF assms] obtain r where
    "if r < n then switchActiveBuffer s t n = Some s' else s' = s" by blast
  then show ?thesis
    by (auto split: if_split_asm dest: switchActiveBuffer_elemHold2List)
qed

lemma allocate_elemHold2List:
  assumes "allocate s t n = Some s'"
  shows "elemHold2List s' = elemHold2List s"
proof -
  from allocate_SomeD [OF assms] obtain s1 b where
    en: "ensureBufferCapacity s t n = Some s1"
    and "vec_at (activeBufferIds s1) (unat t) = Some b"
    and "unat b < length (states s1)"
    and s': "s' = s1\<lparr>states := (states s1)[unat b :=
                 (states s1 ! unat b)\<lparr>bs_usedElems := bs_usedElems (states s1 ! unat b) + n\<rparr>]\<rparr>"
    by blast
  from ensureBufferCapacity_elemHold2List [OF en] s' show ?thesis by simp
qed

lemma addType_elemHold2List:
  assumes "addType s d = Some s'"
  shows "elemHold2List s' = elemHold2List s"
proof -
  from addType_SomeD [OF assms] obtain b s1 where
    on: "onActive (s\<lparr>typeHandlers := typeHandlers s @ [d]\<rparr>) b
            (of_nat (length (typeHandlers s))) 0 = Some s1"
    and s': "s' = s1\<lparr>activeBufferIds := activeBufferIds s1 @ [b]\<rparr>"
    by blast
  from onActive_SomeD [OF on] s' show ?thesis by auto
qed

text \<open>Only the transfer and the trim write the stamped list.\<close>

lemma step_elemHold2List:
  assumes "step s c = Some s'"
  shows "elemHold2List s' =
     (case c of
        TransferHoldLists g \<Rightarrow> elemHold2List s @ map (\<lambda>h. mkElemHold2 h g) (elemHold1List s)
      | TrimHoldLists u \<Rightarrow> dropWhile (\<lambda>e. generation e < u) (elemHold2List s)
      | _ \<Rightarrow> elemHold2List s)"
proof (cases c)
  case (AddType d)
  with assms show ?thesis by (simp add: addType_elemHold2List)
next
  case (EnsureBufferCapacity t n)
  with assms show ?thesis by (simp add: ensureBufferCapacity_elemHold2List)
next
  case (SwitchActiveBuffer t n)
  with assms show ?thesis by (simp add: switchActiveBuffer_elemHold2List)
next
  case (Allocate t n)
  with assms show ?thesis by (simp add: allocate_elemHold2List)
next
  case (HoldBuffer b)
  with assms show ?thesis by (auto dest!: holdBuffer_SomeD)
next
  case (DoneHoldBuffer b)
  with assms show ?thesis by (auto dest!: doneHoldBuffer_SomeD)
next
  case (FinishCompact bs)
  with assms show ?thesis by (simp add: finishCompact_elemHold2List)
next
  case (FallbackResize b n)
  with assms show ?thesis by (auto dest!: fallbackResize_SomeD)
next
  case (IncDead b d)
  with assms show ?thesis by (auto dest!: incDead_SomeD)
next
  case (RecordHold r l)
  with assms show ?thesis by (auto simp: recordHold_def)
next
  case (TransferHoldLists g)
  with assms show ?thesis
    by (auto simp: transferHoldLists_def transferElemHoldList_def pushStamped_append)
next
  case (TrimHoldLists u)
  with assms show ?thesis
    by (auto simp: trimHoldLists_def trimElemHoldList_def trimScan_takeWhile)
next
  case GetMemStats
  with assms show ?thesis by (auto simp: getMemStats_def)
qed

lemma reach_stamped_sorted:
  "reach generationsAdvance s \<Longrightarrow> sorted (map generation (elemHold2List s))"
proof (induction rule: reach.induct)
  case (reach_init n m)
  show ?case by (simp add: DataStoreBase_init_def)
next
  case (reach_step s c s')
  note l' = step_elemHold2List [OF reach_step.hyps(3)]
  show ?case
  proof (cases c)
    case (TransferHoldLists g)
    with reach_step.hyps(2) have "\<forall>e\<in>set (elemHold2List s). generation e \<le> g"
      by (simp add: list_all_iff)
    with reach_step.IH have "sorted (map generation
        (elemHold2List s @ map (\<lambda>h. mkElemHold2 h g) (elemHold1List s)))"
      by (rule sorted_after_transfer)
    with l' TransferHoldLists show ?thesis by simp
  next
    case (TrimHoldLists u)
    from reach_step.IH have "sorted (map generation
        (dropWhile (\<lambda>e. generation e < u) (elemHold2List s)))"
      by (rule sorted_after_trim)
    with l' TrimHoldLists show ?thesis by simp
  qed (use l' reach_step.IH in simp_all)
qed

subsection \<open>The small arena, step by step\<close>

lemmas ex_defs = exType_def exBuffer_def exArena_def arena1_def arena2_def arena3_def
  freeBufferState_def

lemma findFree_numeral:
  "findFree s (numeral k) b =
     (if isFree s b then Some b else findFree s (pred_numeral k) (nextBufferId s b))"
  by (simp add: numeral_eq_Suc)

lemma findFree_1:
  "findFree s 1 b = (if isFree s b then Some b else None)"
  by simp

lemma replicate_numeral_Cons:
  "replicate (numeral k) x = x # replicate (pred_numeral k) x"
  by (simp add: numeral_eq_Suc)

lemma ex_init: "DataStoreBase_init 3 0 = arena0"
  by (simp add: DataStoreBase_init_def arena0_def replicate_numeral_Cons)

lemma ex_addType: "addType arena0 exType = Some arena1"
  by (simp add: addType_def arena0_def ex_defs onActive_def activated_def vec_at_def
      isFree_def calcAlloc_def prevCapacity_def growFactor_def findFree_numeral)

lemma ex_allocate: "allocate arena1 0 8 = Some arena2"
  by (simp add: allocate_def ensureBufferCapacity_def remaining_def ex_defs vec_at_def)

lemma ex_ensure: "ensureBufferCapacity arena2 0 1 = Some arena3"
  by (simp add: ensureBufferCapacity_def switchActiveBuffer_def remaining_def ex_defs
      vec_at_def nextBufferId_def isFree_def onActive_def activated_def holdBuffer_def
      calcAlloc_def prevCapacity_def growFactor_def findFree_numeral)

lemma reach_arena0: "reach ok arena0"
  using reach_init [of ok 3 0] by (simp add: ex_init)

lemma held_lists:
  "elemHold2List heldOrdered = [exHeld 3, exHeld 5]"
  by (simp add: heldOrdered_def transferHoldLists_def
      transferElemHoldList_def recordHold_def arena0_def exHeld_def mkElemHold2_def)

lemma reach_held: "reach generationsAdvance heldOrdered"
proof -
  let ?s1 = "recordHold arena0 exRef 1"
  let ?s2 = "transferHoldLists ?s1 3"
  let ?s3 = "recordHold ?s2 exRef 1"
  have 1: "reach generationsAdvance ?s1"
    by (rule reach_step [OF reach_arena0, where op = "RecordHold exRef 1"]) simp_all
  have 2: "reach generationsAdvance ?s2"
    by (rule reach_step [OF 1, where op = "TransferHoldLists 3"])
      (simp_all add: recordHold_def arena0_def)
  have 3: "reach generationsAdvance ?s3"
    by (rule reach_step [OF 2, where op = "RecordHold exRef 1"]) simp_all
  have "reach generationsAdvance (transferHoldLists ?s3 5)"
    by (rule reach_step [OF 3, where op = "TransferHoldLists 5"])
      (simp_all add: recordHold_def arena0_def transferHoldLists_def
        transferElemHoldList_def mkElemHold2_def)
  then show ?thesis by (simp only: heldOrdered_def)
qed

lemma reach_arenas:
  assumes "\<And>s c. (\<forall>b d. c \<noteq> IncDead b d) \<Longrightarrow> ok s c"
  shows "reach ok arena1" "reach ok arena2" "reach ok arena3"
proof -
  show 1: "reach ok arena1"
    by (rule reach_step [OF reach_arena0, where op = "AddType exType"])
      (simp_all add: assms ex_addType)
  show 2: "reach ok arena2"
    by (rule reach_step [OF 1, where op = "Allocate 0 8"]) (simp_all add: assms ex_allocate)
  show "reach ok arena3"
    by (rule reach_step [OF 2, where op = "EnsureBufferCapacity 0 1"])
      (simp_all add: assms ex_ensure)
qed

lemma ex_remaining:
  "activeRemaining arena1 0 = Some 8" "activeRemaining arena2 0 = Some 0"
  "activeRemaining arena3 0 = Some 16"
  by (simp_all add: activeRemaining_def ex_defs vec_at_def remaining_def)

lemma ex_incDead:
  "incDead arena1 0 1 = Some arena1Dead" "incDead arena2 0 3 = Some arena2Dead"
  by (simp_all add: incDead_def ex_defs arena1Dead_def arena2Dead_def vec_at_def)

subsection \<open>The element counts under each operation\<close>

lemma list_all_update: "list_all P xs \<Longrightarrow> P x \<Longrightarrow> list_all P (xs[i := x])"
  using set_update_subset_insert [of xs i x] by (auto simp: list_all_iff)

lemma arenaInv_nth: "arenaInv s \<Longrightarrow> i < length (states s) \<Longrightarrow> bufferInv (states s ! i)"
  by (simp add: arenaInv_def list_all_length)

lemma arenaInv_update:
  "arenaInv s \<Longrightarrow> bufferInv st \<Longrightarrow> states s' = (states s)[i := st] \<Longrightarrow> arenaInv s'"
  by (simp add: arenaInv_def list_all_update)

lemma bufferInv_activated: "bufferInv (activated t c)"
  by (simp add: bufferInv_def activated_def)

lemma bufferInv_state [simp]: "bufferInv (st\<lparr>bs_state := x\<rparr>) = bufferInv st"
  by (simp add: bufferInv_def)

lemma bufferInv_use:
  assumes "bufferInv st" "n \<le> remaining st"
  shows "bufferInv (st\<lparr>bs_usedElems := bs_usedElems st + n\<rparr>)"
proof -
  let ?u = "bs_usedElems st" and ?a = "bs_allocElems st" and ?d = "bs_deadElems st"
  from assms(1) have du: "unat ?d \<le> unat ?u" and ua: "?u \<le> ?a"
    by (simp_all add: bufferInv_def word_le_nat_alt)
  from assms(2) have "unat n \<le> unat (?a - ?u)" by (simp add: remaining_def word_le_nat_alt)
  with unat_sub [OF ua] have n: "unat ?u + unat n \<le> unat ?a"
    using ua by (simp add: word_le_nat_alt)
  have "unat ?a < 2 ^ LENGTH(64)" by (rule unsigned_less)
  with n have "unat ?u + unat n < 2 ^ LENGTH(64)" by simp
  then have "unat (?u + n) = unat ?u + unat n" by (simp only: unat_add_lem [THEN iffD1])
  with du n show ?thesis by (simp add: bufferInv_def word_le_nat_alt)
qed

lemma bufferInv_dead:
  assumes "bufferInv st" "unat (bs_deadElems st) + unat d \<le> unat (bs_usedElems st)"
  shows "bufferInv (st\<lparr>bs_deadElems := bs_deadElems st + d\<rparr>)"
proof -
  have "unat (bs_usedElems st) < 2 ^ LENGTH(64)" by (rule unsigned_less)
  with assms(2) have "unat (bs_deadElems st) + unat d < 2 ^ LENGTH(64)" by simp
  then have "unat (bs_deadElems st + d) = unat (bs_deadElems st) + unat d"
    by (simp only: unat_add_lem [THEN iffD1])
  with assms show ?thesis by (simp add: bufferInv_def word_le_nat_alt)
qed

lemma arenaInv_init: "arenaInv (DataStoreBase_init n m)"
  by (simp add: arenaInv_def DataStoreBase_init_def list_all_iff freeBufferState_def
      bufferInv_def)

lemma arenaInv_onActive:
  assumes "arenaInv s" "onActive s b t n = Some s'"
  shows "arenaInv s'"
proof -
  from onActive_SomeD [OF assms(2)] obtain c where
    "states s' = (states s)[unat b := activated t c]" by auto
  with assms(1) bufferInv_activated show ?thesis by (rule arenaInv_update)
qed

lemma arenaInv_holdBuffer:
  assumes "arenaInv s" "holdBuffer s b = Some s'"
  shows "arenaInv s'"
proof -
  from holdBuffer_SomeD [OF assms(2)] have b: "unat b < length (states s)"
    and s': "states s' = (states s)[unat b := (states s ! unat b)\<lparr>bs_state := HOLD\<rparr>]"
    by simp_all
  from arenaInv_nth [OF assms(1) b] have "bufferInv ((states s ! unat b)\<lparr>bs_state := HOLD\<rparr>)"
    by simp
  with assms(1) show ?thesis using s' by (rule arenaInv_update)
qed

lemma arenaInv_doneHoldBuffer:
  "arenaInv s \<Longrightarrow> doneHoldBuffer s b = Some s' \<Longrightarrow> arenaInv s'"
  by (auto dest!: doneHoldBuffer_SomeD intro!: list_all_update
      simp: arenaInv_def bufferInv_def)

lemma arenaInv_fallbackResize:
  assumes "arenaInv s" "fallbackResize s b n = Some s'"
  shows "arenaInv s'"
proof -
  from fallbackResize_SomeD [OF assms(2)] obtain ext where
    b: "unat b < length (states s)" and le: "bs_allocElems (states s ! unat b) \<le> n"
    and s': "states s' = (states s)[unat b := (states s ! unat b)\<lparr>bs_allocElems := n\<rparr>]"
    by auto
  from arenaInv_nth [OF assms(1) b] le
  have "bufferInv ((states s ! unat b)\<lparr>bs_allocElems := n\<rparr>)"
    by (auto simp: bufferInv_def)
  with assms(1) show ?thesis using s' by (rule arenaInv_update)
qed

lemma arenaInv_incDead:
  assumes "arenaInv s" "deadWithinUsed s (IncDead b d)" "incDead s b d = Some s'"
  shows "arenaInv s'"
proof -
  from incDead_SomeD [OF assms(3)] have b: "unat b < length (states s)"
    and s': "states s' = (states s)[unat b :=
                 (states s ! unat b)\<lparr>bs_deadElems := bs_deadElems (states s ! unat b) + d\<rparr>]"
    by simp_all
  from assms(2) b have "unat (bs_deadElems (states s ! unat b)) + unat d
      \<le> unat (bs_usedElems (states s ! unat b))"
    by (simp add: vec_at_def)
  with arenaInv_nth [OF assms(1) b]
  have "bufferInv ((states s ! unat b)\<lparr>bs_deadElems := bs_deadElems (states s ! unat b) + d\<rparr>)"
    by (rule bufferInv_dead)
  with assms(1) show ?thesis using s' by (rule arenaInv_update)
qed

lemma arenaInv_finishCompact:
  "arenaInv s \<Longrightarrow> finishCompact s bs = Some s' \<Longrightarrow> arenaInv s'"
proof (induction bs arbitrary: s)
  case Nil
  then show ?case by simp
next
  case (Cons b bs)
  from Cons.prems(2) obtain s1 where
    s1: "(if bs_state (states s ! unat b) = HOLD then Some s else holdBuffer s b) = Some s1"
    and rest: "finishCompact s1 bs = Some s'"
    by (auto simp: bind_eq_Some_conv vec_at_Some split del: if_split)
  from s1 Cons.prems(1) have "arenaInv s1"
    by (auto split: if_split_asm intro: arenaInv_holdBuffer)
  from Cons.IH [OF this rest] show ?case .
qed

lemma arenaInv_switchActiveBuffer:
  assumes inv: "arenaInv s" and sw: "switchActiveBuffer s t n = Some s'"
  shows "arenaInv s'"
proof -
  from switchActiveBuffer_SomeD [OF sw] obtain cur where
    cur: "vec_at (activeBufferIds s) (unat t) = Some cur" by blast
  show ?thesis
  proof (cases "findFree s (unat (numBuffers s)) (nextBufferId s cur)")
    case None
    from switchActiveBuffer_grow_effect [OF sw cur None]
    obtain c where "fallbackResize s cur (of_nat c) = Some s'" by blast
    with inv show ?thesis by (rule arenaInv_fallbackResize)
  next
    case (Some b)
    from switchActiveBuffer_free_effect [OF sw cur Some] obtain c where
      e: "unat cur < length (states s)"
      and s': "s' = s\<lparr>states :=
                 (if bs_state (states s ! unat cur) = ACTIVE \<and> bs_typeId (states s ! unat cur) = t
                  then ((states s)[unat b := activated t c])
                         [unat cur := (states s ! unat cur)\<lparr>bs_state := HOLD\<rparr>]
                  else (states s)[unat b := activated t c]),
               buffers := (buffers s)[unat b := Some c],
               activeBufferIds := (activeBufferIds s)[unat t := b]\<rparr>"
      by blast
    from inv have 1: "list_all bufferInv ((states s)[unat b := activated t c])"
      by (simp add: arenaInv_def list_all_update bufferInv_activated)
    from arenaInv_nth [OF inv e] have "bufferInv ((states s ! unat cur)\<lparr>bs_state := HOLD\<rparr>)"
      by simp
    with 1 have "list_all bufferInv (((states s)[unat b := activated t c])
                         [unat cur := (states s ! unat cur)\<lparr>bs_state := HOLD\<rparr>])"
      by (rule list_all_update)
    with 1 s' show ?thesis by (simp add: arenaInv_def)
  qed
qed

lemma arenaInv_ensureBufferCapacity:
  assumes "arenaInv s" "ensureBufferCapacity s t n = Some s'"
  shows "arenaInv s'"
proof -
  from ensureBufferCapacity_cases [OF assms(2)] obtain r where
    "if r < n then switchActiveBuffer s t n = Some s' else s' = s" by blast
  with assms(1) show ?thesis
    by (auto split: if_split_asm intro: arenaInv_switchActiveBuffer)
qed

lemma arenaInv_allocate:
  assumes "arenaInv s" "allocate s t n = Some s'"
  shows "arenaInv s'"
proof -
  from allocate_SomeD [OF assms(2)] obtain s1 b where
    en: "ensureBufferCapacity s t n = Some s1"
    and act: "vec_at (activeBufferIds s1) (unat t) = Some b"
    and b: "unat b < length (states s1)"
    and s': "s' = s1\<lparr>states := (states s1)[unat b :=
                 (states s1 ! unat b)\<lparr>bs_usedElems := bs_usedElems (states s1 ! unat b) + n\<rparr>]\<rparr>"
    by blast
  from assms(1) en have inv1: "arenaInv s1" by (rule arenaInv_ensureBufferCapacity)
  from ensureBufferCapacity_remaining [OF en] act b
  have "n \<le> remaining (states s1 ! unat b)"
    by (auto simp: activeRemaining_def vec_at_def)
  with arenaInv_nth [OF inv1 b]
  have "bufferInv ((states s1 ! unat b)\<lparr>bs_usedElems := bs_usedElems (states s1 ! unat b) + n\<rparr>)"
    by (rule bufferInv_use)
  with inv1 show ?thesis by (rule arenaInv_update) (simp add: s')
qed

lemma arenaInv_addType:
  assumes "arenaInv s" "addType s d = Some s'"
  shows "arenaInv s'"
proof -
  from addType_SomeD [OF assms(2)] obtain b s1 where
    on: "onActive (s\<lparr>typeHandlers := typeHandlers s @ [d]\<rparr>) b
            (of_nat (length (typeHandlers s))) 0 = Some s1"
    and s': "s' = s1\<lparr>activeBufferIds := activeBufferIds s1 @ [b]\<rparr>"
    by blast
  from assms(1) have "arenaInv (s\<lparr>typeHandlers := typeHandlers s @ [d]\<rparr>)"
    by (simp add: arenaInv_def)
  from this on have "arenaInv s1" by (rule arenaInv_onActive)
  with s' show ?thesis by (simp add: arenaInv_def)
qed

lemma arenaInv_step:
  assumes "arenaInv s" "deadWithinUsed s c" "step s c = Some s'"
  shows "arenaInv s'"
proof (cases c)
  case (IncDead b d)
  with assms show ?thesis by (auto intro: arenaInv_incDead)
next
  case (RecordHold r l)
  with assms show ?thesis by (auto simp: recordHold_def arenaInv_def)
next
  case (TransferHoldLists g)
  with assms show ?thesis
    by (auto simp: transferHoldLists_def transferElemHoldList_def arenaInv_def)
next
  case (TrimHoldLists g)
  with assms show ?thesis
    by (auto simp: trimHoldLists_def trimElemHoldList_def arenaInv_def)
next
  case GetMemStats
  with assms show ?thesis by (simp add: getMemStats_def)
qed (use assms in \<open>auto intro: arenaInv_addType arenaInv_ensureBufferCapacity
      arenaInv_switchActiveBuffer arenaInv_allocate arenaInv_holdBuffer
      arenaInv_doneHoldBuffer arenaInv_finishCompact arenaInv_fallbackResize\<close>)

lemma reach_arenaInv: "reach deadWithinUsed s \<Longrightarrow> arenaInv s"
  by (induction rule: reach.induct) (auto intro: arenaInv_init arenaInv_step)

subsection \<open>The sums of the statistics\<close>

lemmas stats_defs = MemStats_add_def bufferStats_def elemStats_def MemStats_init_def
  inUse_def countState_def Let_def

lemma sumStats_buffers:
  "freeBuffers (sumStats hs acc sts) = freeBuffers acc + of_nat (countState FREE sts)"
  "activeBuffers (sumStats hs acc sts) = activeBuffers acc + of_nat (countState ACTIVE sts)"
  "holdBuffers (sumStats hs acc sts) = holdBuffers acc + of_nat (countState HOLD sts)"
  by (induction sts arbitrary: acc; simp add: stats_defs split: State.splits)+

lemma sumStats_elems:
  "allocElems (sumStats hs acc sts)
     = allocElems acc + sum_list (map bs_allocElems (filter inUse sts))"
  "usedElems (sumStats hs acc sts)
     = usedElems acc + sum_list (map bs_usedElems (filter inUse sts))"
  "deadElems (sumStats hs acc sts)
     = deadElems acc + sum_list (map bs_deadElems (filter inUse sts))"
  "holdElems (sumStats hs acc sts)
     = holdElems acc + sum_list (map bs_holdElems (filter inUse sts))"
  by (induction sts arbitrary: acc; simp add: stats_defs split: State.splits)+

lemma sumStats_bytes:
  "allocBytes (sumStats hs acc sts)
     = allocBytes acc
       + sum_list (map (\<lambda>st. bs_allocElems st * elemSizeOf hs (bs_typeId st)) (filter inUse sts))"
  "usedBytes (sumStats hs acc sts)
     = usedBytes acc
       + sum_list (map (\<lambda>st. bs_usedElems st * elemSizeOf hs (bs_typeId st)) (filter inUse sts))"
  "deadBytes (sumStats hs acc sts)
     = deadBytes acc
       + sum_list (map (\<lambda>st. bs_deadElems st * elemSizeOf hs (bs_typeId st)) (filter inUse sts))"
  "holdBytes (sumStats hs acc sts)
     = holdBytes acc
       + sum_list (map (\<lambda>st. bs_holdElems st * elemSizeOf hs (bs_typeId st)) (filter inUse sts))"
  by (induction sts arbitrary: acc; simp add: stats_defs split: State.splits)+

section \<open>The claims\<close>

subsection \<open>Hold lists\<close>

text \<open>
  C1. In every state the arena reaches while the generations passed to
  \<^verbatim>\<open>transferHoldLists\<close> never run backwards, the stamped list is ordered by generation,
  and \<^verbatim>\<open>trimHoldLists(usedGen)\<close> releases the entry at position \<open>i\<close> exactly when its
  generation is strictly less than \<open>usedGen\<close>: an entry with generation \<open>G\<close> is kept when
  \<open>usedGen \<le> G\<close> and released on that call when \<open>G < usedGen\<close>. For every stamped list
  the scan goes from the oldest end and stops at the first entry whose generation is not
  strictly less than \<open>usedGen\<close>: what is released is a prefix, the rest stays in order, an
  entry is released exactly when it and every older entry are below \<open>usedGen\<close>, and an
  entry with \<open>usedGen \<le> G\<close> is never released. The order is kept by trimming and by
  every transfer at a generation not less than those stamped before.
\<close>

theorem trimHoldLists_releases_prefix:
  "elemHold2List s = releasedBy s usedGen @ elemHold2List (trimHoldLists s usedGen)
   \<and> (\<forall>i<length (elemHold2List s).
         (i < length (releasedBy s usedGen))
           = (\<forall>j\<le>i. generation (elemHold2List s ! j) < usedGen))
   \<and> (\<forall>i<length (elemHold2List s).
         usedGen \<le> generation (elemHold2List s ! i) \<longrightarrow> \<not> i < length (releasedBy s usedGen))
   \<and> (sorted (map generation (elemHold2List s)) \<longrightarrow>
        (\<forall>i<length (elemHold2List s).
           generation (elemHold2List s ! i) < usedGen \<longrightarrow> i < length (releasedBy s usedGen)))
   \<and> (sorted (map generation (elemHold2List s)) \<longrightarrow>
        sorted (map generation (elemHold2List (trimHoldLists s usedGen))))
   \<and> (sorted (map generation (elemHold2List s))
        \<and> (\<forall>e\<in>set (elemHold2List s). generation e \<le> g) \<longrightarrow>
        sorted (map generation (elemHold2List (transferHoldLists s g))))
   \<and> (reach generationsAdvance s \<longrightarrow> sorted (map generation (elemHold2List s)))
   \<and> (reach generationsAdvance s \<longrightarrow>
        (\<forall>i<length (elemHold2List s).
           (i < length (releasedBy s usedGen)) = (generation (elemHold2List s ! i) < usedGen)))"
proof -
  let ?l = "elemHold2List s"
  let ?P = "\<lambda>e. generation e < usedGen"
  have rel: "releasedBy s usedGen = takeWhile ?P ?l"
    by (simp add: releasedBy_def trimScan_takeWhile)
  have rest: "elemHold2List (trimHoldLists s usedGen) = dropWhile ?P ?l"
    by (simp add: trimHoldLists_def trimElemHoldList_def trimScan_takeWhile)
  have idx: "(i < length (takeWhile ?P ?l)) = (\<forall>j\<le>i. ?P (?l ! j))" if "i < length ?l" for i
    using that by (rule takeWhile_index_iff)
  have prot: "\<not> i < length (takeWhile ?P ?l)"
    if "i < length ?l" "usedGen \<le> generation (?l ! i)" for i
    using that idx [of i] by (auto simp: not_less)
  have ord: "i < length (takeWhile ?P ?l)"
    if "sorted (map generation ?l)" "i < length ?l" "generation (?l ! i) < usedGen" for i
  proof -
    have "generation (?l ! j) < usedGen" if "j \<le> i" for j
    proof -
      from \<open>j \<le> i\<close> \<open>i < length ?l\<close> \<open>sorted (map generation ?l)\<close>
      have "map generation ?l ! j \<le> map generation ?l ! i"
        by (intro sorted_nth_mono) simp_all
      with \<open>j \<le> i\<close> \<open>i < length ?l\<close> \<open>generation (?l ! i) < usedGen\<close> show ?thesis by simp
    qed
    with idx [OF \<open>i < length ?l\<close>] show ?thesis by simp
  qed
  have trim: "sorted (map generation (dropWhile ?P ?l))" if "sorted (map generation ?l)"
    using that by (rule sorted_after_trim)
  have trans: "sorted (map generation (elemHold2List (transferHoldLists s g)))"
    if "sorted (map generation ?l)" "\<forall>e\<in>set ?l. generation e \<le> g"
    using sorted_after_transfer [OF that]
    by (simp add: transferHoldLists_def transferElemHoldList_def pushStamped_append)
  have srt: "sorted (map generation ?l)" if "reach generationsAdvance s"
    using that by (rule reach_stamped_sorted)
  have exact: "(i < length (takeWhile ?P ?l)) = (generation (?l ! i) < usedGen)"
    if "reach generationsAdvance s" "i < length ?l" for i
  proof
    assume "i < length (takeWhile ?P ?l)"
    with idx [OF that(2)] show "generation (?l ! i) < usedGen" by simp
  next
    assume "generation (?l ! i) < usedGen"
    with srt [OF that(1)] that(2) show "i < length (takeWhile ?P ?l)" by (intro ord)
  qed
  have c1: "?l = takeWhile ?P ?l @ dropWhile ?P ?l" by simp
  have c2: "\<forall>i<length ?l. (i < length (takeWhile ?P ?l)) = (\<forall>j\<le>i. ?P (?l ! j))"
    using idx by blast
  have c3: "\<forall>i<length ?l. usedGen \<le> generation (?l ! i) \<longrightarrow> \<not> i < length (takeWhile ?P ?l)"
    using prot by blast
  have c4: "sorted (map generation ?l) \<longrightarrow>
      (\<forall>i<length ?l. generation (?l ! i) < usedGen \<longrightarrow> i < length (takeWhile ?P ?l))"
    using ord by blast
  have c5: "sorted (map generation ?l) \<longrightarrow> sorted (map generation (dropWhile ?P ?l))"
    using trim by blast
  have c6: "sorted (map generation ?l) \<and> (\<forall>e\<in>set ?l. generation e \<le> g) \<longrightarrow>
      sorted (map generation (elemHold2List (transferHoldLists s g)))"
    using trans by blast
  have c7: "reach generationsAdvance s \<longrightarrow> sorted (map generation ?l)"
    using srt by blast
  have c8: "reach generationsAdvance s \<longrightarrow>
      (\<forall>i<length ?l. (i < length (takeWhile ?P ?l)) = (generation (?l ! i) < usedGen))"
    using exact by blast
  from c1 c2 c3 c4 c5 c6 c7 c8 show ?thesis
    unfolding rel rest by (intro conjI)
qed

text \<open>
  An instance: stamped at generations 3 and 5, trimmed at 4, the first entry is released
  and the second stays; trimmed at 3, nothing is released.
\<close>

theorem trimHoldLists_releases_prefix_witness:
  "reach generationsAdvance heldOrdered
   \<and> sorted (map generation (elemHold2List heldOrdered))
   \<and> elemHold2List heldOrdered = [exHeld 3, exHeld 5]
   \<and> releasedBy heldOrdered 4 = [exHeld 3]
   \<and> elemHold2List (trimHoldLists heldOrdered 4) = [exHeld 5]
   \<and> releasedBy heldOrdered 3 = []
   \<and> elemHold2List heldOrdered = releasedBy heldOrdered 4 @ elemHold2List (trimHoldLists heldOrdered 4)"
  using trimHoldLists_releases_prefix [of heldOrdered 4 5] reach_held
  by (simp add: held_lists releasedBy_def trimHoldLists_def trimElemHoldList_def exHeld_def)

text \<open>
  C2. \<^verbatim>\<open>transferHoldLists(generation)\<close> moves every entry of the pending list to the
  newest end of the stamped list, each with the generation passed to the call and its
  reference and length unchanged; afterwards the pending list is empty and
  \<^verbatim>\<open>hasElemHold1()\<close> is false.
\<close>

theorem transferHoldLists_moves_pending:
  "elemHold1List (transferHoldLists s g) = []
   \<and> \<not> hasElemHold1 (transferHoldLists s g)
   \<and> elemHold2List (transferHoldLists s g)
       = elemHold2List s @ map (\<lambda>h. mkElemHold2 h g) (elemHold1List s)
   \<and> generation (mkElemHold2 h g) = g
   \<and> ref (mkElemHold2 h g) = ref h \<and> len (mkElemHold2 h g) = len h"
  by (simp add: transferHoldLists_def transferElemHoldList_def hasElemHold1_def
      pushStamped_append mkElemHold2_def)

text \<open>
  An instance: the two transfers that build \<open>heldOrdered\<close>.
\<close>

theorem transferHoldLists_moves_pending_witness:
  "elemHold1List heldOrdered = [] \<and> \<not> hasElemHold1 heldOrdered
   \<and> elemHold2List heldOrdered = [exHeld 3, exHeld 5]"
  using transferHoldLists_moves_pending
    [of "recordHold (transferHoldLists (recordHold arena0 exRef 1) 3) exRef 1" 5]
  by (simp add: held_lists heldOrdered_def [symmetric])

subsection \<open>Buffers\<close>

text \<open>
  C3. After \<^verbatim>\<open>ensureBufferCapacity(typeId, n)\<close> has returned, the active buffer of the
  type has at least \<open>n\<close> elements remaining. When the active buffer had that much at
  the call, the arena is returned as it was; the arena changes only when the remaining
  capacity was smaller than \<open>n\<close>, and then the result is that of
  \<^verbatim>\<open>switchActiveBuffer(typeId, n)\<close>. The call returns whenever the scan finds a Free
  slot and \<open>n\<close> is within the maximum of the type.
\<close>

theorem ensureBufferCapacity_guarantee:
  "(ensureBufferCapacity s t n = Some s' \<longrightarrow>
      (\<exists>r. activeRemaining s' t = Some r \<and> n \<le> r))
   \<and> (activeRemaining s t = Some r \<and> n \<le> r \<longrightarrow> ensureBufferCapacity s t n = Some s)
   \<and> (ensureBufferCapacity s t n = Some s' \<and> s' \<noteq> s \<longrightarrow>
        (\<exists>r. activeRemaining s t = Some r \<and> r < n) \<and> switchActiveBuffer s t n = Some s')
   \<and> (vec_at (activeBufferIds s) (unat t) = Some cur \<and> unat cur < length (states s)
        \<and> findFree s (unat (numBuffers s)) (nextBufferId s cur) = Some b
        \<and> unat b < length (buffers s)
        \<and> vec_at (typeHandlers s) (unat t) = Some d \<and> n \<le> maxElems d \<longrightarrow>
        (\<exists>s2. ensureBufferCapacity s t n = Some s2))"
proof (intro conjI impI)
  assume "ensureBufferCapacity s t n = Some s'"
  then show "\<exists>r. activeRemaining s' t = Some r \<and> n \<le> r"
    by (rule ensureBufferCapacity_remaining)
next
  assume "activeRemaining s t = Some r \<and> n \<le> r"
  then show "ensureBufferCapacity s t n = Some s"
    by (auto intro: ensureBufferCapacity_hit)
next
  assume a: "ensureBufferCapacity s t n = Some s' \<and> s' \<noteq> s"
  with ensureBufferCapacity_cases [of s t n s']
  show "\<exists>r. activeRemaining s t = Some r \<and> r < n"
    by (auto split: if_split_asm)
next
  assume a: "ensureBufferCapacity s t n = Some s' \<and> s' \<noteq> s"
  with ensureBufferCapacity_cases [of s t n s']
  show "switchActiveBuffer s t n = Some s'"
    by (auto split: if_split_asm)
next
  assume a: "vec_at (activeBufferIds s) (unat t) = Some cur \<and> unat cur < length (states s)
        \<and> findFree s (unat (numBuffers s)) (nextBufferId s cur) = Some b
        \<and> unat b < length (buffers s)
        \<and> vec_at (typeHandlers s) (unat t) = Some d \<and> n \<le> maxElems d"
  then have "\<exists>s2. switchActiveBuffer s t n = Some s2"
    by (intro switchActiveBuffer_returns [of s t cur b d n]) simp_all
  with a show "\<exists>s2. ensureBufferCapacity s t n = Some s2"
    by (auto simp: ensureBufferCapacity_def vec_at_def)
qed

text \<open>
  An instance: with the active buffer full, asking for one element switches to buffer 1,
  which has 16 elements free; with 8 elements free, asking for 8 changes nothing.
\<close>

theorem ensureBufferCapacity_guarantee_witness:
  "ensureBufferCapacity arena2 0 1 = Some arena3 \<and> arena3 \<noteq> arena2
   \<and> activeRemaining arena2 0 = Some 0 \<and> activeRemaining arena3 0 = Some 16
   \<and> switchActiveBuffer arena2 0 1 = Some arena3
   \<and> activeRemaining arena1 0 = Some 8 \<and> ensureBufferCapacity arena1 0 8 = Some arena1"
  using ensureBufferCapacity_guarantee [of arena2 0 1 arena3 0 0 1 exType]
    ensureBufferCapacity_guarantee [of arena1 0 8 arena1 8 0 1 exType]
  by (simp add: ex_ensure ex_remaining) (simp add: ex_defs)

text \<open>
  C5, with the obligation of the caller of \<^verbatim>\<open>incDead\<close> made explicit.
  \<^verbatim>\<open>incDead(bufferId, dead)\<close> adds \<open>dead\<close> to the dead-element count of the buffer (in
  64 bits) and changes nothing else. Every operation of the arena
  preserves \<open>deadElems \<le> usedElems \<le> capacity\<close> for every buffer, \<^verbatim>\<open>incDead\<close> when
  its argument stays within the used elements that are not dead yet; the invariant holds
  in every state reached by such calls.
\<close>

theorem bufferInv_preserved:
  "(incDead s b d = Some s1 \<longrightarrow>
      unat b < length (states s)
      \<and> s1 = s\<lparr>states := (states s)[unat b :=
                 (states s ! unat b)\<lparr>bs_deadElems := bs_deadElems (states s ! unat b) + d\<rparr>]\<rparr>)
   \<and> (arenaInv s \<and> deadWithinUsed s c \<and> step s c = Some s2 \<longrightarrow> arenaInv s2)
   \<and> (reach deadWithinUsed s \<longrightarrow> arenaInv s)"
proof -
  have 1: "incDead s b d = Some s1 \<longrightarrow>
      unat b < length (states s)
      \<and> s1 = s\<lparr>states := (states s)[unat b :=
                 (states s ! unat b)\<lparr>bs_deadElems := bs_deadElems (states s ! unat b) + d\<rparr>]\<rparr>"
    by (rule impI) (rule incDead_SomeD)
  have 2: "arenaInv s \<and> deadWithinUsed s c \<and> step s c = Some s2 \<longrightarrow> arenaInv s2"
    by (auto intro: arenaInv_step)
  have 3: "reach deadWithinUsed s \<longrightarrow> arenaInv s"
    by (rule impI) (rule reach_arenaInv)
  from 1 2 3 show ?thesis by (intro conjI)
qed

text \<open>
  An instance: 3 of the 8 used elements of buffer 0 are marked dead.
\<close>

theorem bufferInv_preserved_witness:
  "incDead arena2 0 3 = Some arena2Dead
   \<and> arenaInv arena2 \<and> deadWithinUsed arena2 (IncDead 0 3)
   \<and> step arena2 (IncDead 0 3) = Some arena2Dead \<and> arenaInv arena2Dead
   \<and> bs_deadElems (states arena2Dead ! 0) = bs_deadElems (states arena2 ! 0) + 3
   \<and> reach deadWithinUsed arena2"
proof -
  have "deadWithinUsed s c" if "\<forall>b d. c \<noteq> IncDead b d" for s c
    using that by (cases c) simp_all
  then have r: "reach deadWithinUsed arena2" by (rule reach_arenas)
  have d: "deadWithinUsed arena2 (IncDead 0 3)" by (simp add: ex_defs vec_at_def)
  have s: "step arena2 (IncDead 0 3) = Some arena2Dead" by (simp add: ex_incDead)
  from bufferInv_preserved [of arena2 0 3 arena2Dead "IncDead 0 3" arena2Dead] r d s
  show ?thesis by (simp add: ex_incDead) (simp add: ex_defs arena2Dead_def)
qed

text \<open>
  C5 without that obligation: \<^verbatim>\<open>incDead\<close> tests nothing, and on a buffer with no used
  element \<^verbatim>\<open>incDead(0, 1)\<close> leaves one dead element among zero used ones.
\<close>

theorem incDead_breaks_bufferInv_counterexample:
  "reach anyCall arena1 \<and> arenaInv arena1
   \<and> step arena1 (IncDead 0 1) = Some arena1Dead
   \<and> \<not> arenaInv arena1Dead
   \<and> bs_usedElems (states arena1Dead ! 0) < bs_deadElems (states arena1Dead ! 0)"
proof -
  have "reach anyCall arena1" by (rule reach_arenas) (simp add: anyCall_def)
  then show ?thesis
    by (simp add: ex_incDead) (simp add: arenaInv_def bufferInv_def ex_defs arena1Dead_def)
qed

text \<open>
  C6. The successor of a buffer id \<open>b\<close> is \<open>b + 1\<close> when that is less than the number
  of buffers and 0 when it equals it. When a slot on the round is Free,
  \<^verbatim>\<open>switchActiveBuffer(typeId, sizeNeeded)\<close> goes round the pool from the successor of the
  id the type used last, passes the slots that are not Free, and makes the first Free
  slot the Active buffer of the type.
\<close>

theorem switchActiveBuffer_round_robin:
  "(unat b + 1 < unat (numBuffers s) \<longrightarrow> unat (nextBufferId s b) = unat b + 1)
   \<and> (unat b + 1 = unat (numBuffers s) \<longrightarrow> nextBufferId s b = 0)
   \<and> (switchActiveBuffer s t n = Some s' \<and> vec_at (activeBufferIds s) (unat t) = Some cur
        \<and> (\<exists>k<unat (numBuffers s). isFree s ((nextBufferId s ^^ Suc k) cur))
      \<longrightarrow> (\<exists>k<unat (numBuffers s).
             isFree s ((nextBufferId s ^^ Suc k) cur)
           \<and> (\<forall>j<k. \<not> isFree s ((nextBufferId s ^^ Suc j) cur))
           \<and> vec_at (activeBufferIds s') (unat t) = Some ((nextBufferId s ^^ Suc k) cur)
           \<and> map_option bs_state (vec_at (states s') (unat ((nextBufferId s ^^ Suc k) cur)))
               = Some ACTIVE
           \<and> map_option bs_typeId (vec_at (states s') (unat ((nextBufferId s ^^ Suc k) cur)))
               = Some t))"
proof (intro conjI impI)
  assume "unat b + 1 < unat (numBuffers s)"
  then show "unat (nextBufferId s b) = unat b + 1" by (rule nextBufferId_succ)
next
  assume "unat b + 1 = unat (numBuffers s)"
  then show "nextBufferId s b = 0" by (rule nextBufferId_wrap)
next
  let ?N = "unat (numBuffers s)"
  let ?nx = "nextBufferId s"
  assume a: "switchActiveBuffer s t n = Some s' \<and> vec_at (activeBufferIds s) (unat t) = Some cur
        \<and> (\<exists>k<?N. isFree s ((?nx ^^ Suc k) cur))"
  then have sw: "switchActiveBuffer s t n = Some s'"
    and cur: "vec_at (activeBufferIds s) (unat t) = Some cur" by simp_all
  have sh: "(?nx ^^ k) (?nx cur) = (?nx ^^ Suc k) cur" for k
    by (simp add: funpow_swap1)
  obtain f where ff: "findFree s ?N (?nx cur) = Some f"
  proof (cases "findFree s ?N (?nx cur)")
    case None
    from findFree_None [OF this] a show ?thesis by (auto simp: funpow_swap1)
  next
    case (Some f)
    then show ?thesis by (rule that)
  qed
  from findFree_Some [OF ff] obtain k where k: "k < ?N" "f = (?nx ^^ Suc k) cur" "isFree s f"
    "\<forall>j<k. \<not> isFree s ((?nx ^^ Suc j) cur)"
    unfolding sh by blast
  from switchActiveBuffer_free_effect [OF sw cur ff] obtain c where
    e: "unat f < length (states s)" "unat cur < length (states s)"
      "unat t < length (activeBufferIds s)" "bs_state (states s ! unat f) = FREE"
    and s': "s' = s\<lparr>states :=
                 (if bs_state (states s ! unat cur) = ACTIVE \<and> bs_typeId (states s ! unat cur) = t
                  then ((states s)[unat f := activated t c])
                         [unat cur := (states s ! unat cur)\<lparr>bs_state := HOLD\<rparr>]
                  else (states s)[unat f := activated t c]),
               buffers := (buffers s)[unat f := Some c],
               activeBufferIds := (activeBufferIds s)[unat t := f]\<rparr>"
    by blast
  have act: "vec_at (activeBufferIds s') (unat t) = Some f"
    using s' e by (simp add: vec_at_def)
  have ne: "unat cur \<noteq> unat f" if "bs_state (states s ! unat cur) = ACTIVE"
    using that e by auto
  have st: "vec_at (states s') (unat f) = Some (activated t c)"
    using s' e ne by (auto simp: vec_at_def)
  from k act st
  show "\<exists>k<?N. isFree s ((?nx ^^ Suc k) cur)
           \<and> (\<forall>j<k. \<not> isFree s ((?nx ^^ Suc j) cur))
           \<and> vec_at (activeBufferIds s') (unat t) = Some ((?nx ^^ Suc k) cur)
           \<and> map_option bs_state (vec_at (states s') (unat ((?nx ^^ Suc k) cur))) = Some ACTIVE
           \<and> map_option bs_typeId (vec_at (states s') (unat ((?nx ^^ Suc k) cur))) = Some t"
    by (intro exI [of _ k]) (simp add: activated_def)
qed

text \<open>
  An instance: from buffer 0 the scan finds buffer 1; the successor of 2 is 0.
\<close>

theorem switchActiveBuffer_round_robin_witness:
  "switchActiveBuffer arena2 0 1 = Some arena3
   \<and> vec_at (activeBufferIds arena2) 0 = Some 0
   \<and> isFree arena2 ((nextBufferId arena2 ^^ Suc 0) 0)
   \<and> vec_at (activeBufferIds arena3) 0 = Some ((nextBufferId arena2 ^^ Suc 0) 0)
   \<and> nextBufferId arena2 0 = 1 \<and> nextBufferId arena2 1 = 2 \<and> nextBufferId arena2 2 = 0"
proof -
  have sw: "switchActiveBuffer arena2 0 1 = Some arena3"
    using ex_ensure
    by (simp add: ensureBufferCapacity_def ex_defs vec_at_def remaining_def)
  have nx: "nextBufferId arena2 0 = 1" "nextBufferId arena2 1 = 2" "nextBufferId arena2 2 = 0"
    by (simp_all add: nextBufferId_def ex_defs)
  have fr: "isFree arena2 1" by (simp add: isFree_def ex_defs vec_at_def)
  from switchActiveBuffer_round_robin [of 2 arena2 0 1 arena3 0]
    switchActiveBuffer_round_robin [of 0 arena2 0 1 arena3 0] sw nx fr
  show ?thesis by (simp add: ex_defs vec_at_def)
qed

subsection \<open>Statistics, pending holds, dereference\<close>

text \<open>
  C7. \<^verbatim>\<open>getMemStats()\<close> returns the arena as it was. Its result counts the buffers by
  state and sums the allocated, used, dead and held elements, and their sizes in bytes,
  over the buffers that are not Free (all sums in the width of their counter).
\<close>

theorem getMemStats_read_only:
  "snd (getMemStats s) = s
   \<and> freeBuffers (fst (getMemStats s)) = of_nat (countState FREE (states s))
   \<and> activeBuffers (fst (getMemStats s)) = of_nat (countState ACTIVE (states s))
   \<and> holdBuffers (fst (getMemStats s)) = of_nat (countState HOLD (states s))
   \<and> allocElems (fst (getMemStats s)) = sum_list (map bs_allocElems (filter inUse (states s)))
   \<and> usedElems (fst (getMemStats s)) = sum_list (map bs_usedElems (filter inUse (states s)))
   \<and> deadElems (fst (getMemStats s)) = sum_list (map bs_deadElems (filter inUse (states s)))
   \<and> holdElems (fst (getMemStats s)) = sum_list (map bs_holdElems (filter inUse (states s)))
   \<and> allocBytes (fst (getMemStats s))
       = sum_list (map (\<lambda>st. bs_allocElems st * elemSizeOf (typeHandlers s) (bs_typeId st))
                       (filter inUse (states s)))
   \<and> usedBytes (fst (getMemStats s))
       = sum_list (map (\<lambda>st. bs_usedElems st * elemSizeOf (typeHandlers s) (bs_typeId st))
                       (filter inUse (states s)))
   \<and> deadBytes (fst (getMemStats s))
       = sum_list (map (\<lambda>st. bs_deadElems st * elemSizeOf (typeHandlers s) (bs_typeId st))
                       (filter inUse (states s)))
   \<and> holdBytes (fst (getMemStats s))
       = sum_list (map (\<lambda>st. bs_holdElems st * elemSizeOf (typeHandlers s) (bs_typeId st))
                       (filter inUse (states s)))
   \<and> step s GetMemStats = Some s"
  by (simp add: getMemStats_def sumStats_buffers sumStats_elems sumStats_bytes)
    (simp add: MemStats_init_def)

text \<open>
  An instance: the statistics of \<open>arena3\<close>, one buffer Held, one Active, one Free.
\<close>

theorem getMemStats_read_only_witness:
  "getMemStats arena3
     = (\<lparr>allocElems = 24, usedElems = 8, deadElems = 0, holdElems = 0,
         allocBytes = 96, usedBytes = 32, deadBytes = 0, holdBytes = 0,
         freeBuffers = 1, activeBuffers = 1, holdBuffers = 1\<rparr>, arena3)"
  using getMemStats_read_only [of arena3]
  by (simp add: getMemStats_def ex_defs stats_defs elemSizeOf_def vec_at_def)

text \<open>
  C8. \<^verbatim>\<open>hasElemHold1()\<close> is true exactly when the pending list is not empty.
\<close>

theorem hasElemHold1_iff_nonempty:
  "hasElemHold1 s = (elemHold1List s \<noteq> [])"
  by (simp add: hasElemHold1_def)

theorem hasElemHold1_iff_nonempty_witness:
  "hasElemHold1 (recordHold arena0 exRef 1) \<and> \<not> hasElemHold1 arena0"
  using hasElemHold1_iff_nonempty [of "recordHold arena0 exRef 1"]
    hasElemHold1_iff_nonempty [of arena0]
  by (simp add: recordHold_def arena0_def)




text \<open>
  C10. A default-constructed \<^verbatim>\<open>MemStats\<close> has all eleven counters equal to zero;
  \<^verbatim>\<open>operator+=\<close> adds componentwise (each counter wrapping at its width), so the default
  value is a left and a right identity and the accumulation is commutative and
  associative.
\<close>

theorem MemStats_monoid:
  "allocElems MemStats_init = 0 \<and> usedElems MemStats_init = 0
   \<and> deadElems MemStats_init = 0 \<and> holdElems MemStats_init = 0
   \<and> allocBytes MemStats_init = 0 \<and> usedBytes MemStats_init = 0
   \<and> deadBytes MemStats_init = 0 \<and> holdBytes MemStats_init = 0
   \<and> freeBuffers MemStats_init = 0 \<and> activeBuffers MemStats_init = 0
   \<and> holdBuffers MemStats_init = 0
   \<and> allocElems (MemStats_add a b) = allocElems a + allocElems b
   \<and> usedElems (MemStats_add a b) = usedElems a + usedElems b
   \<and> deadElems (MemStats_add a b) = deadElems a + deadElems b
   \<and> holdElems (MemStats_add a b) = holdElems a + holdElems b
   \<and> allocBytes (MemStats_add a b) = allocBytes a + allocBytes b
   \<and> usedBytes (MemStats_add a b) = usedBytes a + usedBytes b
   \<and> deadBytes (MemStats_add a b) = deadBytes a + deadBytes b
   \<and> holdBytes (MemStats_add a b) = holdBytes a + holdBytes b
   \<and> freeBuffers (MemStats_add a b) = freeBuffers a + freeBuffers b
   \<and> activeBuffers (MemStats_add a b) = activeBuffers a + activeBuffers b
   \<and> holdBuffers (MemStats_add a b) = holdBuffers a + holdBuffers b
   \<and> MemStats_add MemStats_init a = a
   \<and> MemStats_add a MemStats_init = a
   \<and> MemStats_add a b = MemStats_add b a
   \<and> MemStats_add (MemStats_add a b) c = MemStats_add a (MemStats_add b c)"
  by (simp add: MemStats_init_def MemStats_add_def add.commute add.assoc)

end
